theory Spec2Isabelle
  imports Complex_Main "HOL-Library.Sublist"
begin

section \<open>Python string primitives used by update_publications.py\<close>

text \<open>
  A Python \<open>str\<close> is modelled as a \<open>string\<close>, one \<open>char\<close> per code point (code points
  below 256). \<open>isspace\<close> lists the code points below 256 for which \<open>str.isspace\<close> holds;
  \<open>strip\<close> is \<open>str.strip()\<close> without argument.
\<close>

definition isspace :: "char \<Rightarrow> bool" where
  "isspace c = (of_char c \<in> {9, 10, 11, 12, 13, 28, 29, 30, 31, 32, 133, 160 :: nat})"

definition strip :: "string \<Rightarrow> string" where
  "strip s = rev (dropWhile isspace (rev (dropWhile isspace s)))"

text \<open>\<open>contains sub s\<close> is the Python test \<open>sub in s\<close> on two strings.\<close>

fun contains :: "string \<Rightarrow> string \<Rightarrow> bool" where
  "contains sub [] = (sub = [])"
| "contains sub (c # cs) = (prefix sub (c # cs) \<or> contains sub cs)"

text \<open>
  \<open>split_first c s\<close> is \<open>s.split(c)[0]\<close>, the text before the first \<open>c\<close> (all of \<open>s\<close>
  when \<open>c\<close> does not occur); \<open>split_rest c s\<close> is the second component of
  \<open>s.split(c, 1)\<close> when \<open>c\<close> occurs in \<open>s\<close>, the text after the first \<open>c\<close>.
\<close>

definition split_first :: "char \<Rightarrow> string \<Rightarrow> string" where
  "split_first c s = takeWhile (\<lambda>x. x \<noteq> c) s"

definition split_rest :: "char \<Rightarrow> string \<Rightarrow> string" where
  "split_rest c s = tl (dropWhile (\<lambda>x. x \<noteq> c) s)"

text \<open>\<open>join sep xs\<close> is \<open>sep.join(xs)\<close>.\<close>

fun join :: "string \<Rightarrow> string list \<Rightarrow> string" where
  "join sep [] = []"
| "join sep [x] = x"
| "join sep (x # y # ys) = x @ sep @ join sep (y # ys)"

text \<open>
  \<open>str_replace old new s\<close> is \<open>s.replace(old, new)\<close>: every non-overlapping occurrence
  of \<open>old\<close>, left to right; an empty \<open>old\<close> puts \<open>new\<close> before every character and at
  the end.
\<close>

fun str_replace :: "string \<Rightarrow> string \<Rightarrow> string \<Rightarrow> string" where
  "str_replace [] new s = new @ concat (map (\<lambda>c. c # new) s)"
| "str_replace (p # ps) new [] = []"
| "str_replace (p # ps) new (c # cs) =
     (if prefix (p # ps) (c # cs) then new @ str_replace (p # ps) new (drop (length ps) cs)
      else c # str_replace (p # ps) new cs)"

text \<open>\<open>insert_at i x xs\<close> is \<open>xs.insert(i, x)\<close> for \<open>i \<ge> 0\<close> (past the end it appends).\<close>

definition insert_at :: "nat \<Rightarrow> 'a \<Rightarrow> 'a list \<Rightarrow> 'a list" where
  "insert_at i x xs = take i xs @ x # drop i xs"

section \<open>Name formatter\<close>

definition MY_NAMES :: "string set" where
  "MY_NAMES = {''Berean-Dutcher, Jonah'', ''Berean-Dutcher, J.'', ''Berean, Jonah'', ''Berean, J.''}"

definition format_author_short :: "string \<Rightarrow> string" where
  "format_author_short full_name =
     (if CHR '','' \<in> set full_name then
        (let last = split_first CHR '','' full_name;
             first = strip (split_rest CHR '','' full_name);
             initial = (case first of [] \<Rightarrow> [] | c # _ \<Rightarrow> [c])
         in initial @ ''. '' @ strip last)
      else full_name)"

definition is_me :: "string \<Rightarrow> bool" where
  "is_me full_name =
     (let name = strip full_name in
      if name \<in> MY_NAMES then True
      else (let last = (if CHR '','' \<in> set name then strip (split_first CHR '','' name) else name)
            in contains ''Berean'' last))"

section \<open>Author list for the web page\<close>

text \<open>
  An author entry is a dict; the code reads only its \<open>full_name\<close> key, a string, with
  \<open>a.get("full_name", "")\<close>.
\<close>

type_synonym author = "string \<rightharpoonup> string"

definition full_name_of :: "author \<Rightarrow> string" where
  "full_name_of a = (case a ''full_name'' of None \<Rightarrow> [] | Some s \<Rightarrow> s)"

definition me_html :: string where
  "me_html = ''<strong>J. Berean-Dutcher</strong>''"

text \<open>
  The first loop of \<open>author_list_html\<close>: \<open>i\<close> is the index of \<open>enumerate\<close>, the state is
  \<open>(coauthors, me_idx)\<close>.
\<close>

fun scan_authors :: "nat \<Rightarrow> author list \<Rightarrow> string list \<times> nat option \<Rightarrow> string list \<times> nat option" where
  "scan_authors i [] st = st"
| "scan_authors i (a # as) (coauthors, me_idx) =
     (let fn = full_name_of a in
      if is_me fn then scan_authors (Suc i) as (coauthors, Some i)
      else scan_authors (Suc i) as (coauthors @ [format_author_short fn], me_idx))"

text \<open>The second loop, taken when there are at most two coauthors: every author in order.\<close>

definition all_names :: "author list \<Rightarrow> string list" where
  "all_names authors =
     map (\<lambda>a. let fn = full_name_of a in if is_me fn then me_html else format_author_short fn) authors"

definition author_list_html :: "author list \<Rightarrow> string" where
  "author_list_html authors =
     (case scan_authors 0 authors ([], None) of (coauthors, me_idx) \<Rightarrow>
        if length coauthors \<le> 2 then
          (let names = all_names authors in
           if length names \<le> 2 then join '' & '' names
           else join '', '' (butlast names) @ '' & '' @ last names)
        else
          (let shown = take 2 coauthors;
               shown' = (case me_idx of Some i \<Rightarrow> insert_at (min i 2) me_html shown
                                      | None \<Rightarrow> insert_at 0 me_html shown)
           in join '', '' shown' @ '' et al.''))"

section \<open>Escaping\<close>

definition escape_html :: "string \<Rightarrow> string" where
  "escape_html s = str_replace ''>'' ''&gt;'' (str_replace ''<'' ''&lt;'' (str_replace ''&'' ''&amp;'' s))"

text \<open>The dict \<open>special\<close> of \<open>escape_latex\<close>, in its insertion order, which the loop follows.\<close>

definition special :: "(string \<times> string) list" where
  "special = [(''&'', [CHR 0x5C, CHR ''&'']), (''%'', [CHR 0x5C, CHR ''%'']),
              (''#'', [CHR 0x5C, CHR ''#'']), (''_'', [CHR 0x5C, CHR ''_'']),
              (''~'', CHR 0x5C # ''textasciitilde{}'')]"

definition escape_latex :: "string \<Rightarrow> string" where
  "escape_latex s = fold (\<lambda>(ch, repl) s. str_replace ch repl s) special s"

section \<open>Records fetched from the API\<close>

text \<open>
  What \<open>json.loads\<close> returns: \<open>None\<close>, a bool, an int, a float, a str, a list or a dict
  (its items, keys distinct). Of a float only its truth value (non-zero) matters here.
\<close>

datatype json = JNull | JBool bool | JInt int | JFloat real | JStr string
  | JArr "json list" | JObj "(string \<times> json) list"

datatype error = AttributeError | IndexError | KeyError | TypeError

definition ebind :: "error + 'a \<Rightarrow> ('a \<Rightarrow> error + 'b) \<Rightarrow> error + 'b" where
  "ebind m f = (case m of Inl e \<Rightarrow> Inl e | Inr x \<Rightarrow> f x)"

text \<open>Python's truth value of a decoded JSON value, as \<open>if x\<close> and \<open>not x\<close> test it.\<close>

fun truthy :: "json \<Rightarrow> bool" where
  "truthy JNull = False"
| "truthy (JBool b) = b"
| "truthy (JInt n) = (n \<noteq> 0)"
| "truthy (JFloat r) = (r \<noteq> 0)"
| "truthy (JStr s) = (s \<noteq> [])"
| "truthy (JArr xs) = (xs \<noteq> [])"
| "truthy (JObj kvs) = (kvs \<noteq> [])"

text \<open>\<open>dict_get d k dflt\<close> is \<open>d.get(k, dflt)\<close>: only a dict has the method.\<close>

definition dict_get :: "json \<Rightarrow> string \<Rightarrow> json \<Rightarrow> error + json" where
  "dict_get d k dflt =
     (case d of JObj kvs \<Rightarrow> (case map_of kvs k of Some v \<Rightarrow> Inr v | None \<Rightarrow> Inr dflt)
              | _ \<Rightarrow> Inl AttributeError)"

text \<open>\<open>index0 x\<close> is \<open>x[0]\<close>; a decoded dict has string keys only, so never the key 0.\<close>

fun index0 :: "json \<Rightarrow> error + json" where
  "index0 (JArr []) = Inl IndexError"
| "index0 (JArr (v # _)) = Inr v"
| "index0 (JStr []) = Inl IndexError"
| "index0 (JStr (c # _)) = Inr (JStr [c])"
| "index0 (JObj _) = Inl KeyError"
| "index0 _ = Inl TypeError"

text \<open>\<open>py_in s x\<close> is \<open>s in x\<close> for a string \<open>s\<close>.\<close>

fun py_in :: "string \<Rightarrow> json \<Rightarrow> error + bool" where
  "py_in s (JArr xs) = Inr (JStr s \<in> set xs)"
| "py_in s (JStr t) = Inr (contains s t)"
| "py_in s (JObj kvs) = Inr (s \<in> fst ` set kvs)"
| "py_in s _ = Inl TypeError"

text \<open>
  \<open>slice4 x\<close> is \<open>x[:4]\<close>: a prefix of a str or of a list; any other value raises
  (for a dict the exception is a \<open>TypeError\<close> up to Python 3.11 and a \<open>KeyError\<close>
  after; no caller tells them apart).
\<close>

fun slice4 :: "json \<Rightarrow> error + json" where
  "slice4 (JStr s) = Inr (JStr (take 4 s))"
| "slice4 (JArr xs) = Inr (JArr (take 4 xs))"
| "slice4 _ = Inl TypeError"

text \<open>The values a \<open>for\<close> loop over a decoded JSON value visits.\<close>

fun py_iter :: "json \<Rightarrow> error + json list" where
  "py_iter (JArr xs) = Inr xs"
| "py_iter (JStr s) = Inr (map (\<lambda>c. JStr [c]) s)"
| "py_iter (JObj kvs) = Inr (map (\<lambda>kv. JStr (fst kv)) kvs)"
| "py_iter _ = Inl TypeError"

record paper =
  title :: json
  authors :: json
  arxiv :: json
  journal :: json
  year :: json
  doi :: json
  inspire_id :: json

text \<open>
  \<open>first_value meta k\<close> is
  \<open>meta.get(k, [{}])[0].get("value") if meta.get(k) else None\<close>.
\<close>

definition first_value :: "json \<Rightarrow> string \<Rightarrow> error + json" where
  "first_value meta k =
     ebind (dict_get meta k JNull) (\<lambda>probe.
       if truthy probe then
         ebind (dict_get meta k (JArr [JObj []])) (\<lambda>entries.
         ebind (index0 entries) (\<lambda>entry. dict_get entry ''value'' JNull))
       else Inr JNull)"

text \<open>
  \<open>get_pub_info meta\<close> is
  \<open>meta.get("publication_info", [{}])[0] if meta.get("publication_info") else {}\<close>.
\<close>

definition get_pub_info :: "json \<Rightarrow> error + json" where
  "get_pub_info meta =
     ebind (dict_get meta ''publication_info'' JNull) (\<lambda>probe.
       if truthy probe then
         ebind (dict_get meta ''publication_info'' (JArr [JObj []])) index0
       else Inr (JObj []))"

text \<open>Lines 40 to 43: the explicit year, or else the head of \<open>earliest_date\<close>.\<close>

definition get_year :: "json \<Rightarrow> json \<Rightarrow> error + json" where
  "get_year meta pub_info =
     ebind (dict_get pub_info ''year'' JNull) (\<lambda>year.
       if \<not> truthy year then
         ebind (dict_get meta ''earliest_date'' (JStr [])) (\<lambda>earliest.
           if truthy earliest then slice4 earliest else Inr (JStr []))
       else Inr year)"

text \<open>
  The body of the loop of \<open>fetch_papers\<close> on one hit: \<open>Inr None\<close> is the \<open>continue\<close>
  of a thesis, \<open>Inr (Some p)\<close> the record appended, \<open>Inl e\<close> an exception raised.
\<close>

definition process_hit :: "json \<Rightarrow> error + paper option" where
  "process_hit hit =
     ebind (dict_get hit ''metadata'' (JObj [])) (\<lambda>meta.
     ebind (dict_get meta ''document_type'' (JArr [])) (\<lambda>doc_types.
     ebind (py_in ''thesis'' doc_types) (\<lambda>is_thesis.
     if is_thesis then Inr None else
     ebind (dict_get meta ''titles'' (JArr [JObj []])) (\<lambda>titles.
     ebind (index0 titles) (\<lambda>title0.
     ebind (dict_get title0 ''title'' (JStr ''Untitled'')) (\<lambda>title.
     ebind (dict_get meta ''authors'' (JArr [])) (\<lambda>authors_raw.
     ebind (first_value meta ''arxiv_eprints'') (\<lambda>arxiv.
     ebind (get_pub_info meta) (\<lambda>pub_info.
     ebind (dict_get pub_info ''journal_title'' JNull) (\<lambda>journal.
     ebind (get_year meta pub_info) (\<lambda>year.
     ebind (first_value meta ''dois'') (\<lambda>doi.
     ebind (dict_get hit ''id'' JNull) (\<lambda>inspire_id.
     Inr (Some \<lparr>title = title, authors = authors_raw, arxiv = arxiv, journal = journal,
                 year = year, doi = doi, inspire_id = inspire_id\<rparr>))))))))))))))"

fun papers_loop :: "json list \<Rightarrow> paper list \<Rightarrow> error + paper list" where
  "papers_loop [] papers = Inr papers"
| "papers_loop (hit # hits) papers =
     (case process_hit hit of
        Inl e \<Rightarrow> Inl e
      | Inr None \<Rightarrow> papers_loop hits papers
      | Inr (Some p) \<Rightarrow> papers_loop hits (papers @ [p]))"

text \<open>\<open>fetch_papers data\<close>: \<open>data\<close> is the decoded body of the API's response.\<close>

definition fetch_papers :: "json \<Rightarrow> error + paper list" where
  "fetch_papers data =
     ebind (dict_get data ''hits'' (JObj [])) (\<lambda>outer.
     ebind (dict_get outer ''hits'' (JArr [])) (\<lambda>hits.
     ebind (py_iter hits) (\<lambda>hs. papers_loop hs [])))"

section \<open>Links\<close>

text \<open>
  An f-string renders a str as itself; \<open>other\<close> stands for Python's \<open>str()\<close> on the
  values that are not strings. The pair \<open>(None, None)\<close> of \<open>paper_link\<close> is \<open>None\<close>.
\<close>

definition py_str :: "(json \<Rightarrow> string) \<Rightarrow> json \<Rightarrow> string" where
  "py_str other v = (case v of JStr s \<Rightarrow> s | _ \<Rightarrow> other v)"

definition paper_link :: "(json \<Rightarrow> string) \<Rightarrow> paper \<Rightarrow> (string \<times> string) option" where
  "paper_link other paper =
     (if truthy (arxiv paper) then
        Some (''https://arxiv.org/abs/'' @ py_str other (arxiv paper),
              ''arXiv:'' @ py_str other (arxiv paper))
      else if truthy (doi paper) then
        Some (''https://doi.org/'' @ py_str other (doi paper), ''doi:'' @ py_str other (doi paper))
      else if truthy (inspire_id paper) then
        Some (''https://inspirehep.net/literature/'' @ py_str other (inspire_id paper), ''INSPIRE'')
      else None)"

section \<open>The marker splice\<close>

text \<open>
  \<open>replace_between_markers\<close> compiles \<open>re.escape(start_marker) + ".*?" + re.escape(end_marker)\<close>
  with \<open>re.DOTALL\<close> and calls \<open>pattern.sub\<close> with a function as replacement, so the
  replacement text is taken literally. The pattern is: the start marker, any characters
  (newlines too), as few as possible, the end marker. The matcher below is the
  backtracking matcher of \<open>re\<close> on this pattern; positions are counted from the
  start of the text still to be searched. An empty match next to the previous match is
  replaced too, as \<open>re.sub\<close> does from Python 3.7 on.

  \<open>lazy_end e adv n u\<close>: the start marker has matched and \<open>n\<close> characters are consumed so
  far, \<open>u\<close> is the text ahead. The lazy loop tries the end marker here before it consumes
  one more character. With \<open>adv\<close> (the flag \<open>must_advance\<close>) a match of length 0 is
  refused. The result is the length of the whole match.
\<close>

fun lazy_end :: "string \<Rightarrow> bool \<Rightarrow> nat \<Rightarrow> string \<Rightarrow> nat option" where
  "lazy_end e adv n [] = (if e = [] \<and> \<not> (adv \<and> n = 0) then Some n else None)"
| "lazy_end e adv n (c # cs) =
     (if prefix e (c # cs) \<and> \<not> (adv \<and> n + length e = 0) then Some (n + length e)
      else lazy_end e adv (Suc n) cs)"

text \<open>\<open>match_at s e adv t\<close>: the length of the match of the pattern at the start of \<open>t\<close>.\<close>

definition match_at :: "string \<Rightarrow> string \<Rightarrow> bool \<Rightarrow> string \<Rightarrow> nat option" where
  "match_at s e adv t =
     (if prefix s t then lazy_end e adv (length s) (drop (length s) t) else None)"

text \<open>
  \<open>search s e adv t\<close>: the leftmost match in \<open>t\<close>, as \<open>(offset, length)\<close>. The flag
  \<open>must_advance\<close> holds for the attempt at offset 0 only.
\<close>

fun search :: "string \<Rightarrow> string \<Rightarrow> bool \<Rightarrow> string \<Rightarrow> (nat \<times> nat) option" where
  "search s e adv [] = map_option (Pair 0) (match_at s e adv [])"
| "search s e adv (c # cs) =
     (case match_at s e adv (c # cs) of
        Some n \<Rightarrow> Some (0, n)
      | None \<Rightarrow> map_option (\<lambda>(b, n). (Suc b, n)) (search s e False cs))"

lemma lazy_end_bounds:
  "lazy_end e adv n u = Some m \<Longrightarrow> n + length e \<le> m \<and> m \<le> n + length u \<and> (adv \<longrightarrow> 0 < m)"
proof (induction u arbitrary: n)
  case Nil
  then show ?case by (auto split: if_splits)
next
  case (Cons c cs)
  show ?case
  proof (cases "prefix e (c # cs) \<and> \<not> (adv \<and> n + length e = 0)")
    case True
    with Cons.prems have "m = n + length e" by simp
    moreover from True have "prefix e (c # cs)" by blast
    then have "length e \<le> length (c # cs)" by (rule prefix_length_le)
    ultimately show ?thesis using True by auto
  next
    case False
    with Cons.prems have "lazy_end e adv (Suc n) cs = Some m" by auto
    from Cons.IH [OF this] show ?thesis by auto
  qed
qed

lemma match_at_bounds:
  "match_at s e adv t = Some n \<Longrightarrow> length s + length e \<le> n \<and> n \<le> length t \<and> (adv \<longrightarrow> 0 < n)"
proof -
  assume a: "match_at s e adv t = Some n"
  then have p: "prefix s t" and l: "lazy_end e adv (length s) (drop (length s) t) = Some n"
    by (auto simp: match_at_def split: if_splits)
  from p have "length s \<le> length t" by (rule prefix_length_le)
  with lazy_end_bounds [OF l] show ?thesis by auto
qed

lemma search_bounds:
  "search s e adv t = Some (b, n) \<Longrightarrow> b + n \<le> length t \<and> (adv \<longrightarrow> 0 < b + n)"
proof (induction t arbitrary: adv b n)
  case Nil
  then show ?case by (auto dest: match_at_bounds)
next
  case (Cons c cs)
  show ?case
  proof (cases "match_at s e adv (c # cs)")
    case (Some k)
    with Cons.prems have "b = 0" "n = k" by auto
    with match_at_bounds [OF Some] show ?thesis by auto
  next
    case None
    with Cons.prems obtain b' where "search s e False cs = Some (b', n)" "b = Suc b'"
      by auto
    with Cons.IH [of False b' n] show ?thesis by auto
  qed
qed

text \<open>
  \<open>re_sub s e repl adv t\<close> is the loop of \<open>pattern.sub\<close> on the text \<open>t\<close> still to be
  searched: the text before the match is copied, the match is replaced by \<open>repl\<close>, and the
  search goes on after the match, with \<open>must_advance\<close> set when the match was empty.
\<close>

function re_sub :: "string \<Rightarrow> string \<Rightarrow> string \<Rightarrow> bool \<Rightarrow> string \<Rightarrow> string" where
  "re_sub s e repl adv t =
     (case search s e adv t of
        None \<Rightarrow> t
      | Some (b, n) \<Rightarrow> take b t @ repl @ re_sub s e repl (n = 0) (drop (b + n) t))"
  by pat_completeness auto
termination
proof (relation "measure (\<lambda>(s, e, repl, adv, t). 2 * length t + (if adv then 0 else 1))")
  show "wf (measure (\<lambda>(s, e, repl, adv, t). 2 * length t + (if adv then 0 else 1)))"
    by simp
next
  fix s e repl :: string and adv :: bool and t :: string and x2 :: "nat \<times> nat" and b n :: nat
  assume "search s e adv t = Some x2" and "(b, n) = x2"
  then have "search s e adv t = Some (b, n)" by simp
  from search_bounds [OF this]
  show "((s, e, repl, n = 0, drop (b + n) t), (s, e, repl, adv, t))
        \<in> measure (\<lambda>(s, e, repl, adv, t). 2 * length t + (if adv then 0 else 1))"
    by auto
qed

declare re_sub.simps [simp del]

definition replace_between_markers :: "string \<Rightarrow> string \<Rightarrow> string \<Rightarrow> string \<Rightarrow> string" where
  "replace_between_markers text start_marker end_marker replacement =
     (let repl = start_marker @ ''\<newline>'' @ replacement @ ''\<newline>'' @ end_marker
      in re_sub start_marker end_marker repl False text)"

section \<open>Specification-side definitions\<close>

text \<open>
  The escaping the specification describes, character by character: each special
  character has one escaped form, every other character (the dollar sign among them)
  stands for itself.
\<close>

definition html_entity :: "char \<Rightarrow> string" where
  "html_entity c =
     (if c = CHR ''&'' then ''&amp;''
      else if c = CHR ''<'' then ''&lt;''
      else if c = CHR ''>'' then ''&gt;''
      else [c])"

definition latex_entity :: "char \<Rightarrow> string" where
  "latex_entity c =
     (if c = CHR ''&'' then [CHR 0x5C, CHR ''&'']
      else if c = CHR ''%'' then [CHR 0x5C, CHR ''%'']
      else if c = CHR ''#'' then [CHR 0x5C, CHR ''#'']
      else if c = CHR ''_'' then [CHR 0x5C, CHR ''_'']
      else if c = CHR ''~'' then CHR 0x5C # ''textasciitilde{}''
      else [c])"

section \<open>Strings: helper lemmas\<close>

lemma contains_sublist: "contains sub s = sublist sub s"
  by (induction s) (auto simp: sublist_Cons_right)

lemma sublist_dropWhile:
  assumes "sub \<noteq> []" "\<not> P (hd sub)"
  shows "sublist sub (dropWhile P xs) = sublist sub xs"
proof (induction xs)
  case Nil
  show ?case by simp
next
  case (Cons c cs)
  show ?case
  proof (cases "P c")
    case True
    with assms have "\<not> prefix sub (c # cs)" by (cases sub) auto
    with True Cons show ?thesis by (simp add: sublist_Cons_right)
  next
    case False
    then show ?thesis by simp
  qed
qed

lemma sublist_strip:
  assumes "sub \<noteq> []" "\<not> isspace (hd sub)" "\<not> isspace (last sub)"
  shows "sublist sub (strip x) = sublist sub x"
proof -
  have "sublist sub (strip x) = sublist (rev sub) (dropWhile isspace (rev (dropWhile isspace x)))"
    unfolding strip_def by (metis sublist_rev rev_rev_ident)
  also have "\<dots> = sublist (rev sub) (rev (dropWhile isspace x))"
    using assms by (intro sublist_dropWhile) (auto simp: hd_rev)
  also have "\<dots> = sublist sub (dropWhile isspace x)" by simp
  also have "\<dots> = sublist sub x" using assms by (intro sublist_dropWhile) auto
  finally show ?thesis .
qed

lemma contains_Berean_strip: "contains ''Berean'' (strip x) = contains ''Berean'' x"
  unfolding contains_sublist by (rule sublist_strip) (simp_all add: isspace_def)

lemma strip_all_space: "\<forall>c \<in> set s. isspace c \<Longrightarrow> strip s = []"
proof -
  assume "\<forall>c \<in> set s. isspace c"
  then have d: "dropWhile isspace s = []" by simp
  show ?thesis unfolding strip_def d by simp
qed

lemma str_replace_char:
  "str_replace [c] new s = concat (map (\<lambda>x. if x = c then new else [x]) s)"
  by (induction s) auto

lemma concat_map_concat_map:
  "concat (map f (concat (map g s))) = concat (map (\<lambda>x. concat (map f (g x))) s)"
  by (induction s) auto

lemma escape_html_chars: "escape_html s = concat (map html_entity s)"
  unfolding escape_html_def str_replace_char concat_map_concat_map
  by (rule arg_cong [where f = concat], rule map_cong) (auto simp: html_entity_def)

lemma escape_latex_chars: "escape_latex s = concat (map latex_entity s)"
  unfolding escape_latex_def special_def
  apply (simp add: str_replace_char concat_map_concat_map)
  by (rule arg_cong [where f = concat], rule map_cong) (auto simp: latex_entity_def)

section \<open>Escaping (C6)\<close>

text \<open>
  C6. \<open>escape_html\<close>, three passes of \<open>str.replace\<close>, is the one-pass substitution that
  writes \<open>&amp;\<close>, \<open>&lt;\<close>, \<open>&gt;\<close> for every \<open>&\<close>, \<open><\<close>, \<open>>\<close> of the input and copies
  every other character: the ampersands the first pass introduces are not escaped again,
  since the later passes touch only \<open><\<close> and \<open>>\<close>. \<open>escape_latex\<close>, five passes in the
  order of the dict, is the one-pass substitution that writes the escaped form of every
  \<open>&\<close>, \<open>%\<close>, \<open>#\<close>, \<open>_\<close>, \<open>~\<close> and copies every other character; a dollar sign is
  among the characters copied, so the dollar signs of the output are those of the input.
\<close>

theorem escape_html_latex_one_pass:
  "escape_html s = concat (map html_entity s)
   \<and> escape_latex s = concat (map latex_entity s)
   \<and> latex_entity CHR ''$'' = ''$''
   \<and> filter (\<lambda>c. c = CHR ''$'') (escape_latex s) = filter (\<lambda>c. c = CHR ''$'') s"
proof -
  have "filter (\<lambda>c. c = CHR ''$'') (concat (map latex_entity s)) = filter (\<lambda>c. c = CHR ''$'') s"
    by (induction s) (auto simp: latex_entity_def)
  then show ?thesis
    by (simp add: escape_html_chars escape_latex_chars latex_entity_def)
qed

section \<open>Name formatter (C7, C9)\<close>

lemma strip_decomp:
  "dropWhile isspace x = strip x @ rev (takeWhile isspace (rev (dropWhile isspace x)))"
proof -
  let ?y = "rev (dropWhile isspace x)"
  have "rev (takeWhile isspace ?y @ dropWhile isspace ?y) = rev ?y"
    by (simp only: takeWhile_dropWhile_id)
  then have "rev (dropWhile isspace ?y) @ rev (takeWhile isspace ?y) = dropWhile isspace x"
    by (simp only: rev_append rev_rev_ident)
  then show ?thesis unfolding strip_def by (rule sym)
qed

lemma comma_not_space: "isspace c \<Longrightarrow> c \<noteq> CHR '',''"
  by (auto simp: isspace_def)

lemma Berean_segment_strip:
  "sublist ''Berean'' (takeWhile (\<lambda>c. c \<noteq> CHR '','') (strip x))
   = sublist ''Berean'' (takeWhile (\<lambda>c. c \<noteq> CHR '','') x)"
proof -
  let ?P = "\<lambda>c. c \<noteq> CHR '',''"
  let ?B = "''Berean''"
  let ?x' = "dropWhile isspace x"
  let ?ws2 = "rev (takeWhile isspace (rev ?x'))"
  have B: "?B \<noteq> []" "\<not> isspace (hd ?B)" "\<not> isspace (last ?B)"
    by (simp_all add: isspace_def)
  have ws2: "\<forall>c \<in> set ?ws2. ?P c"
    by (auto dest: set_takeWhileD comma_not_space)
  have x': "?x' = strip x @ ?ws2" by (rule strip_decomp)
  \<comment> \<open>trailing whitespace\<close>
  have 1: "sublist ?B (takeWhile ?P (strip x)) = sublist ?B (takeWhile ?P ?x')"
  proof (cases "\<forall>c \<in> set (strip x). ?P c")
    case True
    then have a: "takeWhile ?P (strip x) = strip x" by simp
    from True ws2 have "\<forall>c \<in> set (strip x @ ?ws2). ?P c" by auto
    then have "takeWhile ?P (strip x @ ?ws2) = strip x @ ?ws2"
      by (intro takeWhile_eq_all_conv [THEN iffD2])
    with x' have b: "takeWhile ?P ?x' = ?x'" by simp
    have "sublist ?B (strip x) = sublist ?B x" by (rule sublist_strip [OF B])
    also have "\<dots> = sublist ?B ?x'" by (rule sublist_dropWhile [of ?B isspace, OF B(1,2), symmetric])
    finally show ?thesis unfolding a b .
  next
    case False
    then obtain c where "c \<in> set (strip x)" "\<not> ?P c" by blast
    then have "takeWhile ?P (strip x @ ?ws2) = takeWhile ?P (strip x)"
      by (rule takeWhile_append1)
    with x' show ?thesis by simp
  qed
  \<comment> \<open>leading whitespace\<close>
  let ?ws1 = "takeWhile isspace x"
  have "takeWhile ?P (?ws1 @ ?x') = ?ws1 @ takeWhile ?P ?x'"
    by (rule takeWhile_append2) (auto dest: set_takeWhileD comma_not_space)
  then have tw: "takeWhile ?P x = ?ws1 @ takeWhile ?P ?x'" by simp
  have "dropWhile isspace (?ws1 @ takeWhile ?P ?x') = dropWhile isspace (takeWhile ?P ?x')"
    by (rule dropWhile_append2) (auto dest: set_takeWhileD)
  then have "sublist ?B (dropWhile isspace (?ws1 @ takeWhile ?P ?x'))
           = sublist ?B (dropWhile isspace (takeWhile ?P ?x'))" by simp
  then have 2: "sublist ?B (takeWhile ?P x) = sublist ?B (takeWhile ?P ?x')"
    unfolding tw sublist_dropWhile [of ?B isspace, OF B(1,2)] .
  from 1 2 show ?thesis by simp
qed

lemma known_names_Berean:
  "n \<in> MY_NAMES \<Longrightarrow> sublist ''Berean'' (takeWhile (\<lambda>c. c \<noteq> CHR '','') n)"
  by (auto simp: MY_NAMES_def sublist_Cons_right)


text \<open>
  C7. \<open>is_me\<close> is true exactly when the trimmed name is one of the four known names, or
  the last-name segment contains \<open>Berean\<close>, where the segment is the text of the trimmed
  name before its first comma, or the whole trimmed name when it has no comma. Every
  known name has \<open>Berean\<close> before its comma, and trimming neither adds nor removes an
  occurrence of \<open>Berean\<close> before the first comma; so \<open>is_me\<close> is true exactly when
  \<open>Berean\<close> occurs in the given name before its first comma.
\<close>

theorem is_me_iff:
  "(is_me full_name \<longleftrightarrow>
     strip full_name \<in> {''Berean-Dutcher, Jonah'', ''Berean-Dutcher, J.'', ''Berean, Jonah'', ''Berean, J.''}
     \<or> sublist ''Berean'' (takeWhile (\<lambda>c. c \<noteq> CHR '','') (strip full_name)))
   \<and> (is_me full_name \<longleftrightarrow> sublist ''Berean'' (takeWhile (\<lambda>c. c \<noteq> CHR '','') full_name))"
proof -
  let ?name = "strip full_name"
  have seg: "(if CHR '','' \<in> set ?name then split_first CHR '','' ?name else ?name)
               = takeWhile (\<lambda>c. c \<noteq> CHR '','') ?name"
  proof (cases "CHR '','' \<in> set ?name")
    case True
    then show ?thesis by (simp add: split_first_def)
  next
    case False
    then have tw: "takeWhile (\<lambda>c. c \<noteq> CHR '','') ?name = ?name"
      by (intro takeWhile_eq_all_conv [THEN iffD2]) auto
    show ?thesis unfolding if_not_P [OF False] tw by (rule refl)
  qed
  have "is_me full_name \<longleftrightarrow>
      ?name \<in> MY_NAMES \<or>
      contains ''Berean'' (if CHR '','' \<in> set ?name then split_first CHR '','' ?name else ?name)"
    by (simp add: is_me_def Let_def contains_Berean_strip)
  then have a: "is_me full_name \<longleftrightarrow>
      ?name \<in> MY_NAMES \<or> sublist ''Berean'' (takeWhile (\<lambda>c. c \<noteq> CHR '','') ?name)"
    unfolding seg contains_sublist .
  with known_names_Berean [of ?name]
  have "is_me full_name \<longleftrightarrow> sublist ''Berean'' (takeWhile (\<lambda>c. c \<noteq> CHR '','') ?name)"
    by blast
  then have b: "is_me full_name \<longleftrightarrow> sublist ''Berean'' (takeWhile (\<lambda>c. c \<noteq> CHR '','') full_name)"
    unfolding Berean_segment_strip .
  from a b show ?thesis unfolding MY_NAMES_def by blast
qed

theorem is_me_iff_witness:
  "is_me ''Berean, J.'' \<and> is_me ''  Berean-Dutcher, Jonah '' \<and> is_me ''Bereanson, Kim''
   \<and> is_me ''McBerean'' \<and> \<not> is_me ''Smith, Berean'' \<and> \<not> is_me ''Dutcher, Jonah''
   \<and> \<not> is_me ''berean, j.'' \<and> \<not> is_me []
   \<and> strip ''  Berean-Dutcher, Jonah '' = ''Berean-Dutcher, Jonah''
   \<and> takeWhile (\<lambda>c. c \<noteq> CHR '','') (strip ''Smith, Berean'') = ''Smith''
   \<and> \<not> sublist ''Berean'' ''Smith'' \<and> sublist ''Berean'' ''Bereanson''"
  using is_me_iff [of "''Berean, J.''"] is_me_iff [of "''  Berean-Dutcher, Jonah ''"]
    is_me_iff [of "''Bereanson, Kim''"] is_me_iff [of "''McBerean''"]
    is_me_iff [of "''Smith, Berean''"] is_me_iff [of "''Dutcher, Jonah''"]
    is_me_iff [of "''berean, j.''"] is_me_iff [of "[]"]
  by (simp add: strip_def isspace_def sublist_Cons_right)

text \<open>
  C9. When the name has a comma and everything after the first comma is whitespace (or
  nothing), \<open>format_author_short\<close> returns a period and a space followed by the trimmed
  text before the comma: there is no initial before the period.
\<close>

theorem format_author_short_blank_first:
  assumes "CHR '','' \<in> set full_name"
    and "\<forall>c \<in> set (split_rest CHR '','' full_name). isspace c"
  shows "format_author_short full_name = ''. '' @ strip (split_first CHR '','' full_name)"
  using assms by (simp add: format_author_short_def Let_def strip_all_space)

theorem format_author_short_blank_first_witness:
  "CHR '','' \<in> set ''Doe,  '' \<and> split_rest CHR '','' ''Doe,  '' = ''  '' \<and> isspace CHR '' ''
   \<and> format_author_short ''Doe,  '' = ''. Doe''"
  using format_author_short_blank_first [of "''Doe,  ''"]
  by (simp add: split_rest_def split_first_def isspace_def strip_def)

section \<open>Author list truncation (C3)\<close>

definition coauthor_names :: "author list \<Rightarrow> string list" where
  "coauthor_names as = filter (\<lambda>n. \<not> is_me n) (map full_name_of as)"

lemma scan_authors_fst:
  "fst (scan_authors i as (co, me)) = co @ map format_author_short (coauthor_names as)"
  by (induction as arbitrary: i co me) (auto simp: Let_def coauthor_names_def)

lemma scan_authors_snd_none:
  "\<forall>a \<in> set as. \<not> is_me (full_name_of a) \<Longrightarrow> snd (scan_authors i as (co, me)) = me"
  by (induction as arbitrary: i co me) (auto simp: Let_def)

lemma scan_authors_snd_last:
  assumes "k < length as" "is_me (full_name_of (as ! k))"
    and "\<forall>j. k < j \<and> j < length as \<longrightarrow> \<not> is_me (full_name_of (as ! j))"
  shows "snd (scan_authors i as (co, me)) = Some (i + k)"
  using assms
proof (induction as arbitrary: i co me k)
  case Nil
  then show ?case by simp
next
  case (Cons a as)
  show ?case
  proof (cases k)
    case 0
    with Cons.prems have me: "is_me (full_name_of a)" by simp
    from Cons.prems 0 have "\<forall>j. j < length as \<longrightarrow> \<not> is_me (full_name_of (as ! j))"
      by auto
    then have "\<forall>b \<in> set as. \<not> is_me (full_name_of b)"
      by (auto simp: in_set_conv_nth)
    from scan_authors_snd_none [OF this] me 0 show ?thesis by (simp add: Let_def)
  next
    case (Suc k')
    with Cons.prems have 1: "k' < length as" "is_me (full_name_of (as ! k'))" by auto
    from Cons.prems Suc have 2: "\<forall>j. k' < j \<and> j < length as \<longrightarrow> \<not> is_me (full_name_of (as ! j))"
      by auto
    have "snd (scan_authors (Suc i) as st) = Some (Suc i + k')" for st
      using Cons.IH [OF 1 2, of "Suc i" "fst st" "snd st"] by simp
    with Suc show ?thesis by (simp add: Let_def)
  qed
qed

lemma is_me_examples:
  "is_me ''Berean-Dutcher, Jonah''" "\<not> is_me ''Adams, Bob''" "\<not> is_me ''Curie, Marie''"
  "\<not> is_me ''Dirac, Paul''" "\<not> is_me ''Euler, Leo''"
  by (simp_all add: is_me_def strip_def isspace_def MY_NAMES_def split_first_def)

lemma format_author_short_examples:
  "format_author_short ''Adams, Bob'' = ''B. Adams''"
  "format_author_short ''Curie, Marie'' = ''M. Curie''"
  "format_author_short ''Dirac, Paul'' = ''P. Dirac''"
  "format_author_short ''Euler, Leo'' = ''L. Euler''"
  by (simp_all add: format_author_short_def strip_def isspace_def split_first_def split_rest_def)

text \<open>
  C3. Let \<open>coauthors\<close> be the short forms of the authors that are not the owner, in order,
  and let there be more than two of them. Then \<open>author_list_html\<close> shows three names, joined
  with a comma and a space and followed by \<open> et al.\<close>: the first two coauthors, with the
  owner's bold display string inserted at index 0 when no author is the owner, and at index
  \<open>min k 2\<close> when \<open>k\<close> is the owner's index in the author list (the index of the last entry
  that is the owner, should several be).
\<close>

theorem author_list_html_truncated:
  assumes "coauthors = map format_author_short (filter (\<lambda>n. \<not> is_me n) (map full_name_of as))"
    and "2 < length coauthors"
  shows "((\<forall>a \<in> set as. \<not> is_me (full_name_of a)) \<longrightarrow>
           author_list_html as = join '', '' (insert_at 0 me_html (take 2 coauthors)) @ '' et al.'')
       \<and> (\<forall>k. k < length as \<and> is_me (full_name_of (as ! k)) \<and>
             (\<forall>j. k < j \<and> j < length as \<longrightarrow> \<not> is_me (full_name_of (as ! j))) \<longrightarrow>
           author_list_html as = join '', '' (insert_at (min k 2) me_html (take 2 coauthors)) @ '' et al.'')
       \<and> (\<forall>k. length (insert_at k me_html (take 2 coauthors)) = 3)"
proof -
  obtain co me where sc: "scan_authors 0 as ([], None) = (co, me)" by force
  from scan_authors_fst [of 0 as "[]" None] sc assms(1)
  have co: "co = coauthors" by (simp add: coauthor_names_def)
  have none: "author_list_html as = join '', '' (insert_at 0 me_html (take 2 coauthors)) @ '' et al.''"
    if "\<forall>a \<in> set as. \<not> is_me (full_name_of a)"
  proof -
    from scan_authors_snd_none [OF that, of 0 "[]" None] sc have "me = None" by simp
    with sc co assms(2) show ?thesis
      by (simp add: author_list_html_def Let_def)
  qed
  have some: "author_list_html as = join '', '' (insert_at (min k 2) me_html (take 2 coauthors)) @ '' et al.''"
    if "k < length as" "is_me (full_name_of (as ! k))"
      "\<forall>j. k < j \<and> j < length as \<longrightarrow> \<not> is_me (full_name_of (as ! j))" for k
  proof -
    from scan_authors_snd_last [OF that, of 0 "[]" None] sc have "me = Some k" by simp
    with sc co assms(2) show ?thesis
      by (simp add: author_list_html_def Let_def)
  qed
  from assms(2) have len: "length (insert_at k me_html (take 2 coauthors)) = 3" for k
    by (simp add: insert_at_def)
  from none some len show ?thesis by blast
qed

theorem author_list_html_truncated_witness:
  "length (filter (\<lambda>n. \<not> is_me n) (map full_name_of
     [[''full_name'' \<mapsto> ''Adams, Bob''], [''full_name'' \<mapsto> ''Berean-Dutcher, Jonah''],
      [''full_name'' \<mapsto> ''Curie, Marie''], [''full_name'' \<mapsto> ''Dirac, Paul''],
      [''full_name'' \<mapsto> ''Euler, Leo'']])) = 4
   \<and> author_list_html
     [[''full_name'' \<mapsto> ''Adams, Bob''], [''full_name'' \<mapsto> ''Berean-Dutcher, Jonah''],
      [''full_name'' \<mapsto> ''Curie, Marie''], [''full_name'' \<mapsto> ''Dirac, Paul''],
      [''full_name'' \<mapsto> ''Euler, Leo'']]
   = ''B. Adams, <strong>J. Berean-Dutcher</strong>, M. Curie et al.''
   \<and> author_list_html
     [[''full_name'' \<mapsto> ''Adams, Bob''], [''full_name'' \<mapsto> ''Curie, Marie''],
      [''full_name'' \<mapsto> ''Dirac, Paul'']]
   = ''<strong>J. Berean-Dutcher</strong>, B. Adams, M. Curie et al.''"
proof -
  let ?as = "[[''full_name'' \<mapsto> ''Adams, Bob''], [''full_name'' \<mapsto> ''Berean-Dutcher, Jonah''],
      [''full_name'' \<mapsto> ''Curie, Marie''], [''full_name'' \<mapsto> ''Dirac, Paul''],
      [''full_name'' \<mapsto> ''Euler, Leo'']] :: author list"
  let ?bs = "[[''full_name'' \<mapsto> ''Adams, Bob''], [''full_name'' \<mapsto> ''Curie, Marie''],
      [''full_name'' \<mapsto> ''Dirac, Paul'']] :: author list"
  have f: "filter (\<lambda>n. \<not> is_me n) (map full_name_of ?as)
           = [''Adams, Bob'', ''Curie, Marie'', ''Dirac, Paul'', ''Euler, Leo'']"
    by (simp add: full_name_of_def is_me_examples)
  have a: "map format_author_short (filter (\<lambda>n. \<not> is_me n) (map full_name_of ?as))
           = [''B. Adams'', ''M. Curie'', ''P. Dirac'', ''L. Euler'']"
    by (simp add: full_name_of_def is_me_examples format_author_short_examples)
  have b: "map format_author_short (filter (\<lambda>n. \<not> is_me n) (map full_name_of ?bs))
           = [''B. Adams'', ''M. Curie'', ''P. Dirac'']"
    by (simp add: full_name_of_def is_me_examples format_author_short_examples)
  have k: "(1::nat) < length ?as \<and> is_me (full_name_of (?as ! 1)) \<and>
     (\<forall>j. 1 < j \<and> j < length ?as \<longrightarrow> \<not> is_me (full_name_of (?as ! j)))"
  proof (intro conjI allI impI)
    fix j :: nat
    assume "1 < j \<and> j < length ?as"
    then have "j = 2 \<or> j = 3 \<or> j = 4" by auto
    then show "\<not> is_me (full_name_of (?as ! j))"
      by (auto simp: full_name_of_def is_me_examples)
  qed (simp_all add: full_name_of_def is_me_examples)
  have n: "\<forall>a \<in> set ?bs. \<not> is_me (full_name_of a)"
    by (simp add: full_name_of_def is_me_examples)
  have la: "2 < length [''B. Adams'', ''M. Curie'', ''P. Dirac'', ''L. Euler'']" by simp
  have lb: "2 < length [''B. Adams'', ''M. Curie'', ''P. Dirac'']" by simp
  from author_list_html_truncated [OF a [symmetric] la] k
  have 1: "author_list_html ?as = join '', '' (insert_at (min 1 2) me_html
             (take 2 [''B. Adams'', ''M. Curie'', ''P. Dirac'', ''L. Euler''])) @ '' et al.''"
    by blast
  from author_list_html_truncated [OF b [symmetric] lb] n
  have 2: "author_list_html ?bs = join '', '' (insert_at 0 me_html
             (take 2 [''B. Adams'', ''M. Curie'', ''P. Dirac''])) @ '' et al.''"
    by blast
  have "length (filter (\<lambda>n. \<not> is_me n) (map full_name_of ?as)) = 4"
    unfolding f by simp
  with 1 2 show ?thesis by (simp add: insert_at_def me_html_def)
qed

section \<open>Links (C8)\<close>

definition example_paper :: "json \<Rightarrow> json \<Rightarrow> json \<Rightarrow> paper" where
  "example_paper a d i = \<lparr>title = JStr ''T'', authors = JArr [], arxiv = a, journal = JNull,
     year = JStr ''2021'', doi = d, inspire_id = i\<rparr>"

text \<open>
  C8. \<open>paper_link\<close> gives at most one link, by the priority arXiv, DOI, INSPIRE id. A field
  is present when the code's test \<open>if paper[...]\<close> passes: it is neither \<open>None\<close> nor empty.
  When the arXiv id is present the link is the arXiv URL; else when the DOI is present it is
  the DOI URL; else when the INSPIRE id is present it is the INSPIRE URL; else there is no
  link.
\<close>

theorem paper_link_priority:
  "(truthy (arxiv p) \<longrightarrow>
      paper_link other p = Some (''https://arxiv.org/abs/'' @ py_str other (arxiv p),
                                 ''arXiv:'' @ py_str other (arxiv p)))
   \<and> (\<not> truthy (arxiv p) \<and> truthy (doi p) \<longrightarrow>
      paper_link other p = Some (''https://doi.org/'' @ py_str other (doi p),
                                 ''doi:'' @ py_str other (doi p)))
   \<and> (\<not> truthy (arxiv p) \<and> \<not> truthy (doi p) \<and> truthy (inspire_id p) \<longrightarrow>
      paper_link other p = Some (''https://inspirehep.net/literature/'' @ py_str other (inspire_id p),
                                 ''INSPIRE''))
   \<and> (\<not> truthy (arxiv p) \<and> \<not> truthy (doi p) \<and> \<not> truthy (inspire_id p) \<longrightarrow>
      paper_link other p = None)"
  by (simp add: paper_link_def)

theorem paper_link_priority_witness:
  "paper_link (\<lambda>v. []) (example_paper (JStr ''2101.00001'') (JStr ''10.1000/x'') (JStr ''12345''))
     = Some (''https://arxiv.org/abs/2101.00001'', ''arXiv:2101.00001'')
   \<and> paper_link (\<lambda>v. []) (example_paper JNull (JStr ''10.1000/x'') (JStr ''12345''))
     = Some (''https://doi.org/10.1000/x'', ''doi:10.1000/x'')
   \<and> paper_link (\<lambda>v. []) (example_paper JNull JNull (JStr ''12345''))
     = Some (''https://inspirehep.net/literature/12345'', ''INSPIRE'')
   \<and> paper_link (\<lambda>v. []) (example_paper JNull JNull JNull) = None"
  using paper_link_priority [of "example_paper (JStr ''2101.00001'') (JStr ''10.1000/x'') (JStr ''12345'')" "\<lambda>v. []"]
    paper_link_priority [of "example_paper JNull (JStr ''10.1000/x'') (JStr ''12345'')" "\<lambda>v. []"]
    paper_link_priority [of "example_paper JNull JNull (JStr ''12345'')" "\<lambda>v. []"]
    paper_link_priority [of "example_paper JNull JNull JNull" "\<lambda>v. []"]
  by (simp add: example_paper_def py_str_def)

section \<open>The year of a fetched record (C2)\<close>

text \<open>The property as the specification words it: a string of four characters, or empty.\<close>

definition year_is_4_or_empty :: "json \<Rightarrow> bool" where
  "year_is_4_or_empty y = (case y of JStr s \<Rightarrow> length s = 4 \<or> s = [] | _ \<Rightarrow> False)"

definition hit_with_int_year :: json where
  "hit_with_int_year = JObj [(''id'', JStr ''1''),
     (''metadata'', JObj [(''publication_info'', JArr [JObj [(''year'', JInt 2020)]])])]"

definition hit_with_date :: json where
  "hit_with_date = JObj [(''id'', JStr ''2''),
     (''metadata'', JObj [(''earliest_date'', JStr ''2021-03-04'')])]"

lemma process_hit_int_year:
  "process_hit hit_with_int_year =
     Inr (Some \<lparr>title = JStr ''Untitled'', authors = JArr [], arxiv = JNull, journal = JNull,
                year = JInt 2020, doi = JNull, inspire_id = JStr ''1''\<rparr>)"
  by (simp add: process_hit_def hit_with_int_year_def ebind_def dict_get_def first_value_def
      get_pub_info_def get_year_def)

lemma process_hit_date:
  "process_hit hit_with_date =
     Inr (Some \<lparr>title = JStr ''Untitled'', authors = JArr [], arxiv = JNull, journal = JNull,
                year = JStr ''2021'', doi = JNull, inspire_id = JStr ''2''\<rparr>)"
  by (simp add: process_hit_def hit_with_date_def ebind_def dict_get_def first_value_def
      get_pub_info_def get_year_def)

lemma ebind_Inr: "ebind m f = Inr y \<Longrightarrow> \<exists>x. m = Inr x \<and> f x = Inr y"
  by (cases m) (auto simp: ebind_def)

lemma dict_get_total: "dict_get d k a = Inr x \<Longrightarrow> \<exists>y. dict_get d k' b = Inr y"
  by (cases d) (auto simp: dict_get_def split: option.splits)

text \<open>
  C2, as stated, fails: the API's response holds the year of \<open>publication_info\<close> as a
  number, and the record then holds that number, not a string.
\<close>

theorem fetch_papers_year_counterexample:
  "fetch_papers (JObj [(''hits'', JObj [(''hits'', JArr [hit_with_int_year])])]) =
     Inr [\<lparr>title = JStr ''Untitled'', authors = JArr [], arxiv = JNull, journal = JNull,
           year = JInt 2020, doi = JNull, inspire_id = JStr ''1''\<rparr>]
   \<and> \<not> year_is_4_or_empty (JInt 2020)"
  by (simp add: fetch_papers_def ebind_def dict_get_def process_hit_int_year year_is_4_or_empty_def)

text \<open>
  C2, amended. For every hit that yields a record: when the \<open>year\<close> entry of the
  publication info is truthy, the record's year is that entry as it is, whatever JSON
  value it is; otherwise, when \<open>earliest_date\<close> is a non-empty string, the year is its
  first four characters, a string of one to four characters; when it is a non-empty
  list, its first four elements; and when \<open>earliest_date\<close> is absent or falsy, the year
  is the empty string.
\<close>

theorem process_hit_year:
  assumes "process_hit hit = Inr (Some p)"
  shows "\<exists>meta pub_info y e.
           dict_get hit ''metadata'' (JObj []) = Inr meta
         \<and> get_pub_info meta = Inr pub_info
         \<and> dict_get pub_info ''year'' JNull = Inr y
         \<and> dict_get meta ''earliest_date'' (JStr []) = Inr e
         \<and> (if truthy y then year p = y
            else if truthy e then
              (case e of
                 JStr s \<Rightarrow> year p = JStr (take 4 s) \<and> 0 < length (take 4 s) \<and> length (take 4 s) \<le> 4
               | JArr xs \<Rightarrow> year p = JArr (take 4 xs)
               | _ \<Rightarrow> False)
            else year p = JStr [])"
proof -
  from assms obtain meta where m: "dict_get hit ''metadata'' (JObj []) = Inr meta"
    unfolding process_hit_def by (blast dest: ebind_Inr)
  from assms m obtain pub_info yr where
    pi: "get_pub_info meta = Inr pub_info" and gy: "get_year meta pub_info = Inr yr"
    and yp: "year p = yr"
    unfolding process_hit_def
    by (auto dest!: ebind_Inr split: if_splits)
  from gy obtain y where y: "dict_get pub_info ''year'' JNull = Inr y"
    unfolding get_year_def by (blast dest: ebind_Inr)
  from assms m obtain doc where "dict_get meta ''document_type'' (JArr []) = Inr doc"
    unfolding process_hit_def by (auto dest!: ebind_Inr)
  then have "\<exists>e. dict_get meta ''earliest_date'' (JStr []) = Inr e"
    by (rule dict_get_total)
  then obtain e where e: "dict_get meta ''earliest_date'' (JStr []) = Inr e" ..
  have "if truthy y then yr = y
        else if truthy e then
          (case e of
             JStr s \<Rightarrow> yr = JStr (take 4 s) \<and> 0 < length (take 4 s) \<and> length (take 4 s) \<le> 4
           | JArr xs \<Rightarrow> yr = JArr (take 4 xs)
           | _ \<Rightarrow> False)
        else yr = JStr []"
    using gy y e unfolding get_year_def
    by (cases e) (auto simp: ebind_def split: if_splits)
  with m pi y e yp show ?thesis by blast
qed

theorem process_hit_year_witness:
  "process_hit hit_with_date =
     Inr (Some \<lparr>title = JStr ''Untitled'', authors = JArr [], arxiv = JNull, journal = JNull,
                year = JStr ''2021'', doi = JNull, inspire_id = JStr ''2''\<rparr>)
   \<and> dict_get (JObj [(''earliest_date'', JStr ''2021-03-04'')]) ''earliest_date'' (JStr []) =
       Inr (JStr ''2021-03-04'')
   \<and> take 4 ''2021-03-04'' = ''2021''"
  using process_hit_year [OF process_hit_date]
  by (simp add: process_hit_date dict_get_def)

section \<open>The marker pairs of the program and the first occurrence of a string\<close>

text \<open>
  The two marker pairs that \<open>main\<close>, the only caller, passes on to
  \<open>replace_between_markers\<close> (through \<open>update_file\<close>).
\<close>

definition html_start :: string where "html_start = ''<!-- PUBLICATIONS-START -->''"
definition html_end :: string where "html_end = ''<!-- PUBLICATIONS-END -->''"
definition tex_start :: string where "tex_start = ''% PUBLICATIONS-START''"
definition tex_end :: string where "tex_end = ''% PUBLICATIONS-END''"

text \<open>
  \<open>find_str sub t\<close> is the index of the first occurrence of \<open>sub\<close> in \<open>t\<close>, as
  \<open>t.find(sub)\<close> gives it, or \<open>None\<close>.
\<close>

fun find_str :: "string \<Rightarrow> string \<Rightarrow> nat option" where
  "find_str sub [] = (if sub = [] then Some 0 else None)"
| "find_str sub (c # cs) = (if prefix sub (c # cs) then Some 0 else map_option Suc (find_str sub cs))"


section \<open>The matcher in terms of first occurrences\<close>

lemma find_str_None: "find_str sub t = None \<longleftrightarrow> \<not> sublist sub t"
  by (induction t) (auto simp: sublist_Cons_right)

lemma find_str_Some:
  "find_str sub t = Some b \<Longrightarrow> \<exists>post. t = take b t @ sub @ post"
proof (induction t arbitrary: b)
  case Nil
  then show ?case by (auto split: if_splits)
next
  case (Cons c cs)
  show ?case
  proof (cases "prefix sub (c # cs)")
    case True
    with Cons.prems have "b = 0" by simp
    with True show ?thesis by (auto simp: prefix_def)
  next
    case False
    with Cons.prems obtain b' where b': "find_str sub cs = Some b'" "b = Suc b'" by auto
    from Cons.IH [OF b'(1)] b'(2) show ?thesis by auto
  qed
qed

lemma find_str_drop_None: "find_str sub t = None \<Longrightarrow> find_str sub (drop j t) = None"
  unfolding find_str_None
  by (metis append_take_drop_id sublist_append_leftI sublist_order.order.trans sublist_order.order_refl)

lemma lazy_end_find:
  "lazy_end e adv n u =
     (if adv \<and> n = 0 \<and> e = [] then (case u of [] \<Rightarrow> None | _ \<Rightarrow> Some 1)
      else map_option (\<lambda>k. n + k + length e) (find_str e u))"
proof (cases "adv \<and> n = 0 \<and> e = []")
  case True
  then show ?thesis by (cases u; cases "tl u") auto
next
  case False
  then have eq: "lazy_end e adv n u = map_option (\<lambda>k. n + k + length e) (find_str e u)"
  proof (induction u arbitrary: n)
    case Nil
    then show ?case by auto
  next
    case (Cons c cs)
    from Cons.prems have "\<not> (adv \<and> Suc n = 0 \<and> e = [])" by simp
    from Cons.IH [OF this] Cons.prems show ?case
      by (auto simp: option.map_comp comp_def)
  qed
  show ?thesis unfolding if_not_P [OF False] by (rule eq)
qed

lemma match_at_find:
  "match_at s e False t =
     (if prefix s t then map_option (\<lambda>k. length s + k + length e) (find_str e (drop (length s) t))
      else None)"
  by (simp add: match_at_def lazy_end_find)

lemma search_find:
  "search s e False t =
     (case find_str s t of
        None \<Rightarrow> None
      | Some b \<Rightarrow> map_option (\<lambda>k. (b, length s + k + length e)) (find_str e (drop (b + length s) t)))"
proof (induction t)
  case Nil
  show ?case by (simp add: match_at_find)
next
  case (Cons c cs)
  have tail: "map_option (\<lambda>(b, n). (Suc b, n)) (search s e False cs) =
     (case find_str s cs of
        None \<Rightarrow> None
      | Some b \<Rightarrow> map_option (\<lambda>k. (Suc b, length s + k + length e))
                   (find_str e (drop (Suc b + length s) (c # cs))))"
    unfolding Cons.IH by (cases "find_str s cs") (simp_all add: option.map_comp comp_def)
  show ?case
  proof (cases "prefix s (c # cs)")
    case False
    then have m: "match_at s e False (c # cs) = None" by (simp add: match_at_find)
    from False have f: "find_str s (c # cs) = map_option Suc (find_str s cs)" by simp
    have "search s e False (c # cs) = map_option (\<lambda>(b, n). (Suc b, n)) (search s e False cs)"
      by (simp add: m)
    also note tail
    finally show ?thesis unfolding f by (cases "find_str s cs") simp_all
  next
    case True
    then have f: "find_str s (c # cs) = Some 0" by simp
    show ?thesis
    proof (cases "find_str e (drop (length s) (c # cs))")
      case (Some k)
      with True have "match_at s e False (c # cs) = Some (length s + k + length e)"
        by (simp add: match_at_find)
      then have "search s e False (c # cs) = Some (0, length s + k + length e)" by simp
      with Some show ?thesis unfolding f by simp
    next
      case None
      with True have m: "match_at s e False (c # cs) = None" by (simp add: match_at_find)
      have n: "find_str e (drop (Suc b + length s) (c # cs)) = None" for b
      proof -
        have "drop (Suc b + length s) (c # cs) = drop (Suc b) (drop (length s) (c # cs))"
          by (simp add: add.commute)
        with find_str_drop_None [OF None, of "Suc b"] show ?thesis by simp
      qed
      have "search s e False (c # cs) = map_option (\<lambda>(b, n). (Suc b, n)) (search s e False cs)"
        by (simp add: m)
      also note tail
      also have "(case find_str s cs of
        None \<Rightarrow> None
      | Some b \<Rightarrow> map_option (\<lambda>k. (Suc b, length s + k + length e))
                   (find_str e (drop (Suc b + length s) (c # cs)))) = None"
        unfolding n by (cases "find_str s cs") simp_all
      finally show ?thesis unfolding f using None by simp
    qed
  qed
qed

lemma search_adv:
  "search s e True t =
     (if s = [] \<and> e = [] then (case t of [] \<Rightarrow> None | _ \<Rightarrow> Some (0, 1)) else search s e False t)"
proof (cases "s = [] \<and> e = []")
  case True
  then show ?thesis by (cases t) (auto simp: match_at_def lazy_end_find)
next
  case False
  then have "match_at s e True u = match_at s e False u" for u
    by (auto simp: match_at_def lazy_end_find)
  with False show ?thesis by (cases t) auto
qed

lemma find_str_len: "find_str sub t = Some b \<Longrightarrow> b + length sub \<le> length t"
proof (induction t arbitrary: b)
  case Nil
  then show ?case by (auto split: if_splits)
next
  case (Cons c cs)
  show ?case
  proof (cases "prefix sub (c # cs)")
    case True
    with Cons.prems have "b = 0" by simp
    with prefix_length_le [OF True] show ?thesis by simp
  next
    case False
    with Cons.prems obtain b' where b': "find_str sub cs = Some b'" "b = Suc b'" by auto
    from Cons.IH [OF b'(1)] b'(2) show ?thesis by simp
  qed
qed

lemma find_str_split:
  assumes "find_str sub t = Some b"
  shows "t = take b t @ sub @ drop (b + length sub) t"
proof -
  from find_str_Some [OF assms] obtain post where p: "t = take b t @ sub @ post" by blast
  from find_str_len [OF assms] have "length (take b t) = b" by simp
  with p have "drop (b + length sub) t = post"
    by (metis append_eq_conv_conj drop_drop add.commute)
  with p show ?thesis by simp
qed

lemma search_span:
  assumes "search s e adv t = Some (b, n)"
  shows "\<exists>mid. t = take b t @ s @ mid @ e @ drop (b + n) t"
proof (cases "adv \<and> s = [] \<and> e = []")
  case True
  then have adv: "adv = True" by simp
  from assms [unfolded adv search_adv] True obtain c cs where "t = c # cs" "b = 0" "n = 1"
    by (cases t) auto
  with True have "t = take b t @ s @ [c] @ e @ drop (b + n) t" by simp
  then show ?thesis ..
next
  case False
  have sf: "search s e False t = Some (b, n)"
  proof (cases adv)
    case True
    with assms have "search s e True t = Some (b, n)" by simp
    with False True show ?thesis unfolding search_adv by (auto split: if_splits)
  next
    case False
    with assms show ?thesis by simp
  qed
  then obtain k where fs: "find_str s t = Some b"
    and fe: "find_str e (drop (b + length s) t) = Some k"
    and n: "n = length s + k + length e"
    by (auto simp: search_find split: option.splits)
  let ?u = "drop (b + length s) t"
  from find_str_split [OF fe] have "?u = take k ?u @ e @ drop (b + n) t"
    by (simp add: n add.commute add.left_commute)
  with find_str_split [OF fs] have "t = take b t @ s @ take k ?u @ e @ drop (b + n) t"
    by simp
  then show ?thesis ..
qed

lemma re_sub_first_span:
  assumes t: "t = pre @ s @ mid @ e @ post"
    and fs: "find_str s t = Some (length pre)"
    and fe: "find_str e (mid @ e @ post) = Some (length mid)"
  shows "re_sub s e repl False t = pre @ repl @ re_sub s e repl (s @ mid @ e = []) post"
proof -
  have d: "drop (length pre + length s) t = mid @ e @ post" by (simp add: t)
  have "search s e False t = Some (length pre, length s + length mid + length e)"
    by (simp add: search_find fs d fe)
  then have "re_sub s e repl False t = take (length pre) t @ repl @
      re_sub s e repl (length s + length mid + length e = 0)
        (drop (length pre + (length s + length mid + length e)) t)"
    by (subst re_sub.simps) simp
  moreover have "drop (length pre + (length s + length mid + length e)) t = post"
    by (simp add: t)
  moreover have "take (length pre) t = pre" by (simp add: t)
  ultimately show ?thesis by simp
qed

lemma re_sub_no_span:
  assumes "\<not> (\<exists>pre mid post. t = pre @ s @ mid @ e @ post)"
  shows "re_sub s e repl adv t = t"
proof (cases "search s e adv t")
  case None
  then show ?thesis by (subst re_sub.simps) simp
next
  case (Some bn)
  obtain b n where "bn = (b, n)" by (cases bn)
  with Some have "search s e adv t = Some (b, n)" by simp
  from search_span [OF this] assms show ?thesis by blast
qed

lemma find_str_prefix: "prefix sub t \<Longrightarrow> find_str sub t = Some 0"
  by (cases t) auto

lemma find_str_first:
  "t = pre @ sub @ post \<Longrightarrow> \<exists>b. find_str sub t = Some b \<and> b \<le> length pre"
proof (induction pre arbitrary: t)
  case Nil
  then have "prefix sub t" by simp
  from find_str_prefix [OF this] show ?case by simp
next
  case (Cons c pre)
  then obtain t' where t': "t = c # t'" "t' = pre @ sub @ post" by simp
  from Cons.IH [OF t'(2)] obtain b where "find_str sub t' = Some b" "b \<le> length pre" by blast
  with t'(1) show ?case by auto
qed

lemma span_search:
  assumes "t = pre @ s @ mid @ e @ post"
  shows "search s e False t \<noteq> None"
proof -
  from find_str_first [OF assms] obtain b where b: "find_str s t = Some b" "b \<le> length pre"
    by blast
  have "drop (b + length s) t = drop (b + length s) (pre @ s @ mid) @ e @ post"
    using b(2) by (simp add: assms)
  from find_str_first [OF this] obtain k where "find_str e (drop (b + length s) t) = Some k"
    by blast
  with b(1) show ?thesis by (simp add: search_find)
qed

lemma span_iff_search:
  "(\<exists>pre mid post. t = pre @ s @ mid @ e @ post) \<longleftrightarrow> search s e False t \<noteq> None"
proof
  assume "\<exists>pre mid post. t = pre @ s @ mid @ e @ post"
  then show "search s e False t \<noteq> None" using span_search by blast
next
  assume "search s e False t \<noteq> None"
  then obtain b n where "search s e False t = Some (b, n)" by auto
  from search_span [OF this] show "\<exists>pre mid post. t = pre @ s @ mid @ e @ post" by blast
qed


section \<open>Text without a marker pair (C4)\<close>

lemma search_tex_start_only: "search tex_start tex_end False (tex_start @ '' only'') = None"
  by (simp add: tex_start_def tex_end_def match_at_def)


text \<open>
  C4. When the text does not contain the start marker followed, somewhere after it, by
  the end marker, \<open>replace_between_markers\<close> returns the text as it is: nothing is
  inserted, and the function returns normally (it is total). \<open>update_file\<close> passes the
  text it has read to \<open>replace_between_markers\<close> and writes the result back, so on such
  a text it writes the very text it read. Reading and writing the file, with the
  decoding and newline translation of text mode, are not part of this model.
\<close>

theorem replace_between_markers_no_pair:
  assumes "\<not> (\<exists>pre mid post. text = pre @ start_marker @ mid @ end_marker @ post)"
  shows "replace_between_markers text start_marker end_marker replacement = text"
  unfolding replace_between_markers_def Let_def by (rule re_sub_no_span [OF assms])

theorem replace_between_markers_no_pair_witness:
  "search tex_start tex_end False (tex_start @ '' only'') = None
   \<and> replace_between_markers (tex_start @ '' only'') tex_start tex_end ''X'' = tex_start @ '' only''"
proof -
  have "\<not> (\<exists>pre mid post. tex_start @ '' only'' = pre @ tex_start @ mid @ tex_end @ post)"
    unfolding span_iff_search by (simp add: search_tex_start_only)
  from replace_between_markers_no_pair [OF this, of "''X''"]
  show ?thesis by (simp add: search_tex_start_only)
qed

section \<open>Every span is replaced (C1)\<close>

text \<open>
  C1, as stated, fails: \<open>pattern.sub\<close> has no count, so a second marker pair later in
  the text is replaced as well.
\<close>

theorem replace_between_markers_first_only_counterexample:
  "replace_between_markers (tex_start @ ''a'' @ tex_end @ tex_start @ ''b'' @ tex_end)
       tex_start tex_end ''X''
     = tex_start @ ''\<newline>X\<newline>'' @ tex_end @ tex_start @ ''\<newline>X\<newline>'' @ tex_end
   \<and> replace_between_markers (tex_start @ ''a'' @ tex_end @ tex_start @ ''b'' @ tex_end)
       tex_start tex_end ''X''
     \<noteq> tex_start @ ''\<newline>X\<newline>'' @ tex_end @ tex_start @ ''b'' @ tex_end"
  by (simp add: replace_between_markers_def re_sub.simps tex_start_def tex_end_def match_at_def)


text \<open>
  C1, amended. A text that contains a span from the start marker to the end marker has
  a first such span: it begins at the first occurrence of the start marker and ends with
  the first occurrence of the end marker after that. \<open>replace_between_markers\<close> replaces
  this span, markers included, by the start marker, a newline, the replacement, a newline
  and the end marker, keeps the text before it, and treats the text after it in the same
  way, so every later span is replaced too. (Only with both markers empty can the span
  be empty; the search then goes on at the same position, where a match must not be
  empty.)
\<close>

theorem replace_between_markers_all_spans:
  assumes "text = pre0 @ start_marker @ mid0 @ end_marker @ post0"
  shows "(\<exists>pre mid post. text = pre @ start_marker @ mid @ end_marker @ post
            \<and> find_str start_marker text = Some (length pre)
            \<and> find_str end_marker (mid @ end_marker @ post) = Some (length mid))
       \<and> (\<forall>pre mid post. text = pre @ start_marker @ mid @ end_marker @ post
            \<and> find_str start_marker text = Some (length pre)
            \<and> find_str end_marker (mid @ end_marker @ post) = Some (length mid) \<longrightarrow>
          replace_between_markers text start_marker end_marker replacement =
            pre @ start_marker @ ''\<newline>'' @ replacement @ ''\<newline>'' @ end_marker @
            (if start_marker @ mid @ end_marker = []
             then re_sub start_marker end_marker
                    (start_marker @ ''\<newline>'' @ replacement @ ''\<newline>'' @ end_marker) True post
             else replace_between_markers post start_marker end_marker replacement))"
proof
  from span_search [OF assms] obtain b k where
    fs: "find_str start_marker text = Some b" and
    fe: "find_str end_marker (drop (b + length start_marker) text) = Some k"
    by (auto simp: search_find split: option.splits)
  let ?u = "drop (b + length start_marker) text"
  let ?pre = "take b text" and ?mid = "take k ?u" and ?post = "drop (k + length end_marker) ?u"
  from find_str_len [OF fs] have lp: "length ?pre = b" by simp
  from find_str_len [OF fe] have lm: "length ?mid = k" by simp
  from find_str_split [OF fe] have u: "?u = ?mid @ end_marker @ ?post" .
  from find_str_split [OF fs] have "text = ?pre @ start_marker @ ?u" .
  with u have t: "text = ?pre @ start_marker @ ?mid @ end_marker @ ?post" by simp
  from fe u have fe': "find_str end_marker (?mid @ end_marker @ ?post) = Some (length ?mid)"
    by (simp only: lm)
  from fs have fs': "find_str start_marker text = Some (length ?pre)"
    by (simp only: lp)
  from t fs' fe' show "\<exists>pre mid post. text = pre @ start_marker @ mid @ end_marker @ post
            \<and> find_str start_marker text = Some (length pre)
            \<and> find_str end_marker (mid @ end_marker @ post) = Some (length mid)"
    by blast
next
  show "\<forall>pre mid post. text = pre @ start_marker @ mid @ end_marker @ post
            \<and> find_str start_marker text = Some (length pre)
            \<and> find_str end_marker (mid @ end_marker @ post) = Some (length mid) \<longrightarrow>
          replace_between_markers text start_marker end_marker replacement =
            pre @ start_marker @ ''\<newline>'' @ replacement @ ''\<newline>'' @ end_marker @
            (if start_marker @ mid @ end_marker = []
             then re_sub start_marker end_marker
                    (start_marker @ ''\<newline>'' @ replacement @ ''\<newline>'' @ end_marker) True post
             else replace_between_markers post start_marker end_marker replacement)"
  proof (intro allI impI, elim conjE)
    fix pre mid post
    assume h: "text = pre @ start_marker @ mid @ end_marker @ post"
      "find_str start_marker text = Some (length pre)"
      "find_str end_marker (mid @ end_marker @ post) = Some (length mid)"
    show "replace_between_markers text start_marker end_marker replacement =
            pre @ start_marker @ ''\<newline>'' @ replacement @ ''\<newline>'' @ end_marker @
            (if start_marker @ mid @ end_marker = []
             then re_sub start_marker end_marker
                    (start_marker @ ''\<newline>'' @ replacement @ ''\<newline>'' @ end_marker) True post
             else replace_between_markers post start_marker end_marker replacement)"
      unfolding replace_between_markers_def Let_def re_sub_first_span [OF h]
      by auto
  qed
qed

theorem replace_between_markers_all_spans_witness:
  "find_str tex_start (''p'' @ tex_start @ ''a'' @ tex_end @ tex_start @ ''b'' @ tex_end) = Some 1
   \<and> find_str tex_end (''a'' @ tex_end @ tex_start @ ''b'' @ tex_end) = Some 1
   \<and> replace_between_markers (''p'' @ tex_start @ ''a'' @ tex_end @ tex_start @ ''b'' @ tex_end)
       tex_start tex_end ''X''
     = ''p'' @ tex_start @ ''\<newline>X\<newline>'' @ tex_end
        @ replace_between_markers (tex_start @ ''b'' @ tex_end) tex_start tex_end ''X''"
proof -
  let ?t = "''p'' @ tex_start @ ''a'' @ tex_end @ tex_start @ ''b'' @ tex_end"
  have 1: "find_str tex_start ?t = Some (length ''p'')"
    by (simp add: tex_start_def tex_end_def)
  have 2: "find_str tex_end (''a'' @ tex_end @ tex_start @ ''b'' @ tex_end) = Some (length ''a'')"
    by (simp add: tex_start_def tex_end_def)
  have 3: "tex_start @ ''a'' @ tex_end \<noteq> []" by (simp add: tex_start_def)
  have 0: "?t = ''p'' @ tex_start @ ''a'' @ tex_end @ (tex_start @ ''b'' @ tex_end)" by simp
  from replace_between_markers_all_spans [OF 0, of "''X''"] 0 1 2
  have "replace_between_markers ?t tex_start tex_end ''X'' =
            ''p'' @ tex_start @ ''\<newline>'' @ ''X'' @ ''\<newline>'' @ tex_end @
            (if tex_start @ ''a'' @ tex_end = []
             then re_sub tex_start tex_end (tex_start @ ''\<newline>'' @ ''X'' @ ''\<newline>'' @ tex_end) True
                    (tex_start @ ''b'' @ tex_end)
             else replace_between_markers (tex_start @ ''b'' @ tex_end) tex_start tex_end ''X'')"
    by blast
  with 1 2 3 show ?thesis by simp
qed


section \<open>The text outside the spans (C10)\<close>

text \<open>
  \<open>matched_spans s e adv t\<close> lists the matches of the pattern in \<open>t\<close>, the ones
  \<open>pattern.sub\<close> replaces (and \<open>pattern.finditer\<close> yields), found by the same search
  loop: each as the gap of text between the previous match and this one, and the text
  between the two markers of the match; with them, the tail of the text after the last
  match.
\<close>

function matched_spans :: "string \<Rightarrow> string \<Rightarrow> bool \<Rightarrow> string \<Rightarrow> (string \<times> string) list \<times> string" where
  "matched_spans s e adv t =
     (case search s e adv t of
        None \<Rightarrow> ([], t)
      | Some (b, n) \<Rightarrow>
          (case matched_spans s e (n = 0) (drop (b + n) t) of (segs, tail) \<Rightarrow>
             ((take b t, take (n - length s - length e) (drop (b + length s) t)) # segs, tail)))"
  by pat_completeness auto
termination
proof (relation "measure (\<lambda>(s, e, adv, t). 2 * length t + (if adv then 0 else 1))")
  show "wf (measure (\<lambda>(s, e, adv, t). 2 * length t + (if adv then 0 else 1)))"
    by simp
next
  fix s e :: string and adv :: bool and t :: string and x2 :: "nat \<times> nat" and b n :: nat
  assume "search s e adv t = Some x2" and "(b, n) = x2"
  then have "search s e adv t = Some (b, n)" by simp
  from search_bounds [OF this]
  show "((s, e, n = 0, drop (b + n) t), (s, e, adv, t))
        \<in> measure (\<lambda>(s, e, adv, t). 2 * length t + (if adv then 0 else 1))"
    by auto
qed

declare matched_spans.simps [simp del]

text \<open>
  \<open>leftmost_lazy s e t segs tail\<close> describes the spans without the matcher: each span
  begins at the first occurrence of the start marker in the text after the previous
  span and ends with the first occurrence of the end marker after that start marker;
  the tail is what remains, and holds no start marker with an end marker after it.
\<close>

fun leftmost_lazy :: "string \<Rightarrow> string \<Rightarrow> string \<Rightarrow> (string \<times> string) list \<Rightarrow> string \<Rightarrow> bool" where
  "leftmost_lazy s e t [] tail =
     (tail = t \<and> (case find_str s t of None \<Rightarrow> True
                   | Some b \<Rightarrow> find_str e (drop (b + length s) t) = None))"
| "leftmost_lazy s e t ((gap, mid) # segs) tail =
     (find_str s t = Some (length gap)
      \<and> find_str e (drop (length gap + length s) t) = Some (length mid)
      \<and> leftmost_lazy s e (drop (length gap + length s + length mid + length e) t) segs tail)"

lemma search_cases:
  assumes "search s e adv t = Some (b, n)"
  shows "(adv \<and> s = [] \<and> e = [] \<and> b = 0 \<and> n = 1 \<and> t \<noteq> [])
       \<or> (\<not> (adv \<and> s = [] \<and> e = []) \<and>
           (\<exists>k. find_str s t = Some b \<and> find_str e (drop (b + length s) t) = Some k
                \<and> n = length s + k + length e))"
proof (cases "adv \<and> s = [] \<and> e = []")
  case True
  then have adv: "adv = True" by simp
  from assms [unfolded adv search_adv] True show ?thesis by (cases t) auto
next
  case False
  have sf: "search s e False t = Some (b, n)"
  proof (cases adv)
    case True
    with assms have "search s e True t = Some (b, n)" by simp
    with False True show ?thesis unfolding search_adv by (auto split: if_splits)
  next
    case False
    with assms show ?thesis by simp
  qed
  then have "\<exists>k. find_str s t = Some b \<and> find_str e (drop (b + length s) t) = Some k
                \<and> n = length s + k + length e"
    by (auto simp: search_find split: option.splits)
  with False show ?thesis by blast
qed

lemma search_span_mid:
  assumes "search s e adv t = Some (b, n)"
  shows "t = take b t @ s @ take (n - length s - length e) (drop (b + length s) t) @ e @ drop (b + n) t"
proof -
  from search_cases [OF assms] consider
    (empty) "adv" "s = []" "e = []" "b = 0" "n = 1" "t \<noteq> []"
  | (find) k where "find_str s t = Some b" "find_str e (drop (b + length s) t) = Some k"
      "n = length s + k + length e"
    by blast
  then show ?thesis
  proof cases
    case empty
    then show ?thesis by simp
  next
    case find
    let ?u = "drop (b + length s) t"
    from find_str_split [OF find(2)] have "?u = take k ?u @ e @ drop (b + n) t"
      by (simp add: find(3) add.commute add.left_commute)
    with find_str_split [OF find(1)] have "t = take b t @ s @ take k ?u @ e @ drop (b + n) t"
      by simp
    moreover have "n - length s - length e = k" by (simp add: find(3))
    ultimately show ?thesis by simp
  qed
qed

lemma re_sub_matched_spans:
  "case matched_spans s e adv t of (segs, tail) \<Rightarrow>
     t = concat (map (\<lambda>(gap, mid). gap @ s @ mid @ e) segs) @ tail
     \<and> re_sub s e repl adv t = concat (map (\<lambda>(gap, mid). gap @ repl) segs) @ tail"
proof (induction s e repl adv t rule: re_sub.induct)
  case (1 s e repl adv t)
  show ?case
  proof (cases "search s e adv t")
    case None
    then have "re_sub s e repl adv t = t" by (subst re_sub.simps) simp
    moreover from None have "matched_spans s e adv t = ([], t)"
      by (subst matched_spans.simps) simp
    ultimately show ?thesis by simp
  next
    case (Some bn)
    obtain b n where bn: "bn = (b, n)" by (cases bn)
    with Some have sr: "search s e adv t = Some (b, n)" by simp
    obtain segs tail where ms: "matched_spans s e (n = 0) (drop (b + n) t) = (segs, tail)"
      by (cases "matched_spans s e (n = 0) (drop (b + n) t)")
    let ?mid = "take (n - length s - length e) (drop (b + length s) t)"
    from "1.IH" [OF Some bn [symmetric]] have
      "drop (b + n) t = concat (map (\<lambda>(g, mid). g @ s @ mid @ e) segs) @ tail
       \<and> re_sub s e repl (n = 0) (drop (b + n) t) = concat (map (\<lambda>(g, mid). g @ repl) segs) @ tail"
      unfolding ms prod.case .
    then have
      r: "drop (b + n) t = concat (map (\<lambda>(g, mid). g @ s @ mid @ e) segs) @ tail"
      and r': "re_sub s e repl (n = 0) (drop (b + n) t) = concat (map (\<lambda>(g, mid). g @ repl) segs) @ tail"
      by blast+
    have res: "re_sub s e repl adv t = take b t @ repl @ re_sub s e repl (n = 0) (drop (b + n) t)"
      by (subst re_sub.simps) (simp add: sr)
    have m: "matched_spans s e adv t = ((take b t, ?mid) # segs, tail)"
      by (subst matched_spans.simps) (simp add: sr ms)
    from search_span_mid [OF sr] r
    have "t = concat (map (\<lambda>(g, mid). g @ s @ mid @ e) ((take b t, ?mid) # segs)) @ tail"
      by simp
    moreover have "re_sub s e repl adv t = concat (map (\<lambda>(g, mid). g @ repl) ((take b t, ?mid) # segs)) @ tail"
      using res r' by simp
    ultimately show ?thesis unfolding m by simp
  qed
qed

lemma matched_spans_leftmost_lazy:
  assumes "s \<noteq> [] \<or> e \<noteq> []"
  shows "case matched_spans s e adv t of (segs, tail) \<Rightarrow> leftmost_lazy s e t segs tail"
  using assms
proof (induction s e adv t rule: matched_spans.induct)
  case (1 s e adv t)
  show ?case
  proof (cases "search s e adv t")
    case None
    then have m: "matched_spans s e adv t = ([], t)"
      by (subst matched_spans.simps) simp
    from None "1.prems" have "search s e False t = None"
      by (cases adv) (auto simp: search_adv split: if_splits)
    then have "case find_str s t of None \<Rightarrow> True
               | Some b \<Rightarrow> find_str e (drop (b + length s) t) = None"
      by (auto simp: search_find split: option.splits)
    then show ?thesis unfolding m by simp
  next
    case (Some bn)
    obtain b n where bn: "bn = (b, n)" by (cases bn)
    with Some have sr: "search s e adv t = Some (b, n)" by simp
    obtain segs tail where ms: "matched_spans s e (n = 0) (drop (b + n) t) = (segs, tail)"
      by (cases "matched_spans s e (n = 0) (drop (b + n) t)")
    from search_cases [OF sr] "1.prems" obtain k where
      fs: "find_str s t = Some b" and fe: "find_str e (drop (b + length s) t) = Some k"
      and n: "n = length s + k + length e" by blast
    let ?mid = "take (n - length s - length e) (drop (b + length s) t)"
    have m: "matched_spans s e adv t = ((take b t, ?mid) # segs, tail)"
      by (subst matched_spans.simps) (simp add: sr ms)
    from find_str_len [OF fs] have lb: "length (take b t) = b" by simp
    from find_str_len [OF fe] have lm: "length ?mid = k" by (simp add: n)
    from "1.IH" [OF Some bn [symmetric] "1.prems"] ms
    have ih: "leftmost_lazy s e (drop (b + n) t) segs tail" by simp
    have eq: "b + length s + k + length e = b + n" by (simp add: n)
    from ih have "leftmost_lazy s e (drop (b + length s + k + length e) t) segs tail"
      by (simp only: eq)
    with fs fe lb lm show ?thesis unfolding m by simp
  qed
qed

lemma matched_spans_example1:
  "matched_spans tex_start tex_end False
     (''p'' @ tex_start @ ''a'' @ tex_end @ ''keep'' @ tex_start @ ''b'' @ tex_end @ ''q'')
   = ([(''p'', ''a''), (''keep'', ''b'')], ''q'')"
  by (simp add: matched_spans.simps tex_start_def tex_end_def match_at_def)

lemma matched_spans_example2:
  "matched_spans tex_start tex_end False (tex_start @ ''a'' @ tex_end @ '' b'' @ tex_end)
   = ([([], ''a'')], '' b'' @ tex_end)"
  by (simp add: matched_spans.simps tex_start_def tex_end_def match_at_def)


text \<open>
  C10. The text is the gaps and matched spans in turn, followed by the tail, each span a
  start marker, some text and an end marker; the result is the same gaps and the same
  tail, in order and unchanged, with every matched span replaced by the start marker, a
  newline, the replacement, a newline and the end marker. Unless both markers are empty,
  the matched spans are the leftmost non-greedy ones as \<open>leftmost_lazy\<close> describes
  them. In particular the text before the first start marker (the whole text when there
  is none) is a prefix of the result, and the tail after the last matched end marker is
  its end.
\<close>

theorem replace_between_markers_frame:
  "(case matched_spans start_marker end_marker False text of (segs, tail) \<Rightarrow>
      text = concat (map (\<lambda>(gap, mid). gap @ start_marker @ mid @ end_marker) segs) @ tail
    \<and> replace_between_markers text start_marker end_marker replacement =
        concat (map (\<lambda>(gap, mid). gap @ start_marker @ ''\<newline>'' @ replacement @ ''\<newline>'' @ end_marker) segs) @ tail
    \<and> (start_marker \<noteq> [] \<or> end_marker \<noteq> [] \<longrightarrow>
         leftmost_lazy start_marker end_marker text segs tail))
   \<and> prefix (case find_str start_marker text of None \<Rightarrow> text | Some b \<Rightarrow> take b text)
        (replace_between_markers text start_marker end_marker replacement)"
proof
  let ?repl = "start_marker @ ''\<newline>'' @ replacement @ ''\<newline>'' @ end_marker"
  obtain segs tail where ms: "matched_spans start_marker end_marker False text = (segs, tail)"
    by (cases "matched_spans start_marker end_marker False text")
  from re_sub_matched_spans [where s = start_marker and e = end_marker and adv = False
      and t = "text" and repl = ?repl]
  have c: "text = concat (map (\<lambda>(gap, mid). gap @ start_marker @ mid @ end_marker) segs) @ tail
     \<and> re_sub start_marker end_marker ?repl False text =
         concat (map (\<lambda>(gap, mid). gap @ ?repl) segs) @ tail"
    unfolding ms prod.case .
  have r: "replace_between_markers text start_marker end_marker replacement =
      re_sub start_marker end_marker ?repl False text"
    by (simp add: replace_between_markers_def Let_def)
  from c have t: "text = concat (map (\<lambda>(gap, mid). gap @ start_marker @ mid @ end_marker) segs) @ tail"
    by (rule conjunct1)
  from c have rb: "replace_between_markers text start_marker end_marker replacement =
        concat (map (\<lambda>(gap, mid). gap @ ?repl) segs) @ tail"
    unfolding r by (rule conjunct2)
  have ll: "start_marker \<noteq> [] \<or> end_marker \<noteq> [] \<longrightarrow>
      leftmost_lazy start_marker end_marker text segs tail"
  proof
    assume ne: "start_marker \<noteq> [] \<or> end_marker \<noteq> []"
    from matched_spans_leftmost_lazy [OF ne, where adv = False and t = "text"]
    show "leftmost_lazy start_marker end_marker text segs tail"
      unfolding ms prod.case .
  qed
  show "case matched_spans start_marker end_marker False text of (segs, tail) \<Rightarrow>
      text = concat (map (\<lambda>(gap, mid). gap @ start_marker @ mid @ end_marker) segs) @ tail
    \<and> replace_between_markers text start_marker end_marker replacement =
        concat (map (\<lambda>(gap, mid). gap @ start_marker @ ''\<newline>'' @ replacement @ ''\<newline>'' @ end_marker) segs) @ tail
    \<and> (start_marker \<noteq> [] \<or> end_marker \<noteq> [] \<longrightarrow>
         leftmost_lazy start_marker end_marker text segs tail)"
    unfolding ms prod.case using t rb ll by (intro conjI)
next
  let ?repl = "start_marker @ ''\<newline>'' @ replacement @ ''\<newline>'' @ end_marker"
  show "prefix (case find_str start_marker text of None \<Rightarrow> text | Some b \<Rightarrow> take b text)
        (replace_between_markers text start_marker end_marker replacement)"
  proof (cases "search start_marker end_marker False text")
    case None
    then have "re_sub start_marker end_marker ?repl False text = text"
      by (subst re_sub.simps) simp
    then show ?thesis
      by (auto simp: replace_between_markers_def Let_def take_is_prefix split: option.splits)
  next
    case (Some bn)
    obtain b n where bn: "bn = (b, n)" by (cases bn)
    with Some have fs: "find_str start_marker text = Some b"
      by (auto simp: search_find split: option.splits)
    from Some bn have "re_sub start_marker end_marker ?repl False text =
        take b text @ ?repl @ re_sub start_marker end_marker ?repl (n = 0) (drop (b + n) text)"
      by (subst re_sub.simps) simp
    with fs show ?thesis
      by (simp add: replace_between_markers_def Let_def)
  qed
qed

theorem replace_between_markers_frame_witness:
  "tex_start \<noteq> []
   \<and> matched_spans tex_start tex_end False
       (''p'' @ tex_start @ ''a'' @ tex_end @ ''keep'' @ tex_start @ ''b'' @ tex_end @ ''q'')
     = ([(''p'', ''a''), (''keep'', ''b'')], ''q'')
   \<and> replace_between_markers
       (''p'' @ tex_start @ ''a'' @ tex_end @ ''keep'' @ tex_start @ ''b'' @ tex_end @ ''q'')
       tex_start tex_end ''X''
     = ''p'' @ tex_start @ ''\<newline>X\<newline>'' @ tex_end @ ''keep'' @ tex_start @ ''\<newline>X\<newline>'' @ tex_end @ ''q''
   \<and> leftmost_lazy tex_start tex_end
       (''p'' @ tex_start @ ''a'' @ tex_end @ ''keep'' @ tex_start @ ''b'' @ tex_end @ ''q'')
       [(''p'', ''a''), (''keep'', ''b'')] ''q''
   \<and> matched_spans tex_start tex_end False (tex_start @ ''a'' @ tex_end @ '' b'' @ tex_end)
     = ([([], ''a'')], '' b'' @ tex_end)
   \<and> replace_between_markers (tex_start @ ''a'' @ tex_end @ '' b'' @ tex_end) tex_start tex_end ''X''
     = tex_start @ ''\<newline>X\<newline>'' @ tex_end @ '' b'' @ tex_end"
proof -
  have ne: "tex_start \<noteq> []" by (simp add: tex_start_def)
  from replace_between_markers_frame [of
      "''p'' @ tex_start @ ''a'' @ tex_end @ ''keep'' @ tex_start @ ''b'' @ tex_end @ ''q''"
      tex_start tex_end "''X''"]
  have 1: "replace_between_markers
       (''p'' @ tex_start @ ''a'' @ tex_end @ ''keep'' @ tex_start @ ''b'' @ tex_end @ ''q'')
       tex_start tex_end ''X''
     = ''p'' @ tex_start @ ''\<newline>X\<newline>'' @ tex_end @ ''keep'' @ tex_start @ ''\<newline>X\<newline>'' @ tex_end @ ''q''"
    and 2: "leftmost_lazy tex_start tex_end
       (''p'' @ tex_start @ ''a'' @ tex_end @ ''keep'' @ tex_start @ ''b'' @ tex_end @ ''q'')
       [(''p'', ''a''), (''keep'', ''b'')] ''q''"
    unfolding matched_spans_example1 prod.case using ne by simp_all
  from replace_between_markers_frame [of
      "tex_start @ ''a'' @ tex_end @ '' b'' @ tex_end" tex_start tex_end "''X''"]
  have 3: "replace_between_markers (tex_start @ ''a'' @ tex_end @ '' b'' @ tex_end) tex_start tex_end ''X''
     = tex_start @ ''\<newline>X\<newline>'' @ tex_end @ '' b'' @ tex_end"
    unfolding matched_spans_example2 prod.case by simp
  from ne 1 2 3 matched_spans_example1 matched_spans_example2 show ?thesis by (intro conjI)
qed

section \<open>Splicing twice (C5)\<close>

text \<open>
  \<open>occurrences sub t\<close> counts the positions of \<open>t\<close> at which \<open>sub\<close> occurs. A text
  contains exactly one marker-pair span when it is some text, the start marker, some
  text, the end marker and some text, and each marker occurs in it exactly once.
\<close>

fun occurrences :: "string \<Rightarrow> string \<Rightarrow> nat" where
  "occurrences sub [] = (if sub = [] then 1 else 0)"
| "occurrences sub (c # cs) = (if prefix sub (c # cs) then 1 else 0) + occurrences sub cs"


lemma occurrences_pos: "0 < occurrences sub t \<longleftrightarrow> sublist sub t"
  by (induction t) (auto simp: sublist_Cons_right)

lemma occurrences_append_ge:
  "sub \<noteq> [] \<Longrightarrow> occurrences sub xs + occurrences sub ys \<le> occurrences sub (xs @ ys)"
proof (induction xs)
  case Nil
  then show ?case by simp
next
  case (Cons x xs)
  have "prefix sub (x # xs) \<Longrightarrow> prefix sub (x # xs @ ys)"
    using prefix_prefix [of sub "x # xs" ys] by simp
  with Cons show ?case by auto
qed

lemma prefix_sep:
  assumes "c \<notin> set sub" "prefix sub (xs @ c # ys)"
  shows "prefix sub xs"
  using assms by (auto simp: prefix_append prefix_Cons)

lemma occurrences_sep:
  assumes "c \<notin> set sub" "sub \<noteq> []"
  shows "occurrences sub (xs @ c # ys) = occurrences sub xs + occurrences sub ys"
proof (induction xs)
  case Nil
  from assms have "\<not> prefix sub (c # ys)" by (cases sub) auto
  with assms show ?case by simp
next
  case (Cons x xs)
  have "prefix sub (x # xs @ c # ys) \<longleftrightarrow> prefix sub (x # xs)"
  proof
    assume "prefix sub (x # xs @ c # ys)"
    then have "prefix sub ((x # xs) @ c # ys)" by simp
    from prefix_sep [OF assms(1) this] show "prefix sub (x # xs)" .
  next
    assume "prefix sub (x # xs)"
    from prefix_prefix [OF this, of "c # ys"] show "prefix sub (x # xs @ c # ys)" by simp
  qed
  with Cons show ?case by simp
qed

lemma occurrences_self: "0 < occurrences sub (pre @ sub @ post)"
  unfolding occurrences_pos by (auto simp: sublist_def)

lemma occurrences_one_find:
  "occurrences sub (pre @ sub @ post) = 1 \<Longrightarrow> find_str sub (pre @ sub @ post) = Some (length pre)"
proof (induction pre)
  case Nil
  have "prefix sub (sub @ post)" by simp
  from find_str_prefix [OF this] show ?case by simp
next
  case (Cons c pre)
  from occurrences_self [of sub pre post] Cons.prems
  have np: "\<not> prefix sub (c # pre @ sub @ post)"
    and one: "occurrences sub (pre @ sub @ post) = 1"
    by (auto split: if_splits)
  from Cons.IH [OF one] np show ?case by simp
qed

lemma span_counts:
  assumes t: "t = pre @ s @ mid @ e @ post"
    and os: "occurrences s t = 1" and oe: "occurrences e t = 1"
    and ne: "s \<noteq> []" "e \<noteq> []"
  shows "occurrences s (pre @ s) = 1" "occurrences s (e @ post) = 0" "occurrences s post = 0"
    "occurrences e (pre @ s) = 0" "occurrences e (e @ post) = 1"
    "occurrences e (mid @ e @ post) = 1"
proof -
  have t': "t = (pre @ s) @ (mid @ e @ post)" by (simp add: t)
  from occurrences_append_ge [OF ne(1), of "pre @ s" "mid @ e @ post"] os
  have 1: "occurrences s (pre @ s) + occurrences s (mid @ e @ post) \<le> 1"
    unfolding t' by simp
  from occurrences_self [of s pre "[]"] have 2: "0 < occurrences s (pre @ s)" by simp
  from 1 2 show a: "occurrences s (pre @ s) = 1" by simp
  from 1 2 have 3: "occurrences s (mid @ e @ post) = 0" by simp
  from occurrences_append_ge [OF ne(1), of mid "e @ post"] 3
  show b: "occurrences s (e @ post) = 0" by simp
  from occurrences_append_ge [OF ne(1), of e post] b
  show "occurrences s post = 0" by simp
  from occurrences_append_ge [OF ne(2), of "pre @ s" "mid @ e @ post"] oe
  have 4: "occurrences e (pre @ s) + occurrences e (mid @ e @ post) \<le> 1"
    unfolding t' by simp
  from occurrences_self [of e mid post] have 5: "0 < occurrences e (mid @ e @ post)" .
  from 4 5 show "occurrences e (pre @ s) = 0" by simp
  from 4 5 show c: "occurrences e (mid @ e @ post) = 1" by simp
  from occurrences_append_ge [OF ne(2), of mid "e @ post"] c
  have "occurrences e (e @ post) \<le> 1" by simp
  moreover from occurrences_self [of e "[]" post] have "0 < occurrences e (e @ post)" by simp
  ultimately show "occurrences e (e @ post) = 1" by simp
qed

lemma splice_once:
  assumes t: "t = pre @ s @ mid @ e @ post"
    and os: "occurrences s t = 1" and oe: "occurrences e t = 1"
    and ne: "s \<noteq> []" "e \<noteq> []"
  shows "replace_between_markers t s e r = pre @ s @ ''\<newline>'' @ r @ ''\<newline>'' @ e @ post"
proof -
  let ?repl = "s @ ''\<newline>'' @ r @ ''\<newline>'' @ e"
  note c = span_counts [OF t os oe ne]
  from os have "occurrences s (pre @ s @ (mid @ e @ post)) = 1" by (simp add: t)
  from occurrences_one_find [OF this] have fs: "find_str s t = Some (length pre)"
    by (simp add: t)
  from occurrences_one_find [OF c(6)]
  have fe: "find_str e (mid @ e @ post) = Some (length mid)" .
  from c(3) have "\<not> sublist s post" using occurrences_pos [of s post] by simp
  then have "\<not> (\<exists>pre' mid' post'. post = pre' @ s @ mid' @ e @ post')"
    by (auto simp: sublist_def)
  from re_sub_no_span [OF this] have "re_sub s e ?repl (s @ mid @ e = []) post = post" .
  with re_sub_first_span [OF t fs fe, of ?repl]
  have "re_sub s e ?repl False t = pre @ ?repl @ post" by simp
  then show ?thesis by (simp add: replace_between_markers_def Let_def)
qed

lemma splice_counts:
  assumes t: "t = pre @ s @ mid @ e @ post"
    and os: "occurrences s t = 1" and oe: "occurrences e t = 1"
    and nl: "CHR ''\<newline>'' \<notin> set s" "CHR ''\<newline>'' \<notin> set e"
    and nr: "\<not> contains s r" "\<not> contains e r"
  shows "occurrences s (pre @ s @ ''\<newline>'' @ r @ ''\<newline>'' @ e @ post) = 1"
    and "occurrences e (pre @ s @ ''\<newline>'' @ r @ ''\<newline>'' @ e @ post) = 1"
proof -
  from nr have ne: "s \<noteq> []" "e \<noteq> []" by (auto simp: contains_sublist)
  note c = span_counts [OF t os oe ne]
  from nr have r0: "occurrences s r = 0" "occurrences e r = 0"
    using occurrences_pos [of s r] occurrences_pos [of e r] by (auto simp: contains_sublist)
  have "occurrences s ((pre @ s) @ CHR ''\<newline>'' # (r @ CHR ''\<newline>'' # (e @ post)))
      = occurrences s (pre @ s) + (occurrences s r + occurrences s (e @ post))"
    by (simp only: occurrences_sep [OF nl(1) ne(1)])
  with c r0 show "occurrences s (pre @ s @ ''\<newline>'' @ r @ ''\<newline>'' @ e @ post) = 1"
    by simp
  have "occurrences e ((pre @ s) @ CHR ''\<newline>'' # (r @ CHR ''\<newline>'' # (e @ post)))
      = occurrences e (pre @ s) + (occurrences e r + occurrences e (e @ post))"
    by (simp only: occurrences_sep [OF nl(2) ne(2)])
  with c r0 show "occurrences e (pre @ s @ ''\<newline>'' @ r @ ''\<newline>'' @ e @ post) = 1"
    by simp
qed


lemma program_markers_no_newline:
  "CHR ''\<newline>'' \<notin> set html_start" "CHR ''\<newline>'' \<notin> set html_end"
  "CHR ''\<newline>'' \<notin> set tex_start" "CHR ''\<newline>'' \<notin> set tex_end"
  by (simp_all add: html_start_def html_end_def tex_start_def tex_end_def)

lemma splice_twice_no_newline:
  assumes t: "text = pre @ s @ mid @ e @ post"
    and os: "occurrences s text = 1" and oe: "occurrences e text = 1"
    and nl: "CHR ''\<newline>'' \<notin> set s" "CHR ''\<newline>'' \<notin> set e"
    and na: "\<not> contains s a" "\<not> contains e a"
    and nb: "\<not> contains s b" "\<not> contains e b"
  shows "replace_between_markers (replace_between_markers text s e a) s e b
           = pre @ s @ ''\<newline>'' @ b @ ''\<newline>'' @ e @ post
       \<and> occurrences s (replace_between_markers (replace_between_markers text s e a) s e b) = 1
       \<and> occurrences e (replace_between_markers (replace_between_markers text s e a) s e b) = 1"
proof -
  from na have ne: "s \<noteq> []" "e \<noteq> []" by (auto simp: contains_sublist)
  let ?t1 = "pre @ s @ (''\<newline>'' @ a @ ''\<newline>'') @ e @ post"
  have 1: "replace_between_markers text s e a = ?t1"
    using splice_once [OF t os oe ne, of a] by simp
  have c1: "occurrences s ?t1 = 1" "occurrences e ?t1 = 1"
    using splice_counts [OF t os oe nl na] by simp_all
  have 2: "replace_between_markers ?t1 s e b = pre @ s @ ''\<newline>'' @ b @ ''\<newline>'' @ e @ post"
    by (rule splice_once [OF refl c1 ne])
  from splice_counts [OF t os oe nl nb] 1 2 show ?thesis by simp
qed

text \<open>
  C5. With either marker pair of the program, for every text that contains exactly one
  marker-pair span, where neither marker occurs in the replacements \<open>a\<close> and \<open>b\<close>:
  splicing \<open>a\<close> and then \<open>b\<close> gives the text before the start marker, the start
  marker, a newline, \<open>b\<close>, a newline, the end marker and the text after the end marker.
  Each marker occurs in it exactly once, and only \<open>b\<close> is between them.
\<close>

theorem splice_twice:
  assumes m: "(s = html_start \<and> e = html_end) \<or> (s = tex_start \<and> e = tex_end)"
    and t: "text = pre @ s @ mid @ e @ post"
    and os: "occurrences s text = 1" and oe: "occurrences e text = 1"
    and na: "\<not> contains s a" "\<not> contains e a"
    and nb: "\<not> contains s b" "\<not> contains e b"
  shows "replace_between_markers (replace_between_markers text s e a) s e b
           = pre @ s @ ''\<newline>'' @ b @ ''\<newline>'' @ e @ post
       \<and> occurrences s (replace_between_markers (replace_between_markers text s e a) s e b) = 1
       \<and> occurrences e (replace_between_markers (replace_between_markers text s e a) s e b) = 1"
proof -
  from m program_markers_no_newline
  have nl: "CHR ''\<newline>'' \<notin> set s" "CHR ''\<newline>'' \<notin> set e" by auto
  from splice_twice_no_newline [OF t os oe nl na nb] show ?thesis .
qed

theorem splice_twice_witness:
  "occurrences tex_start (''x'' @ tex_start @ ''old'' @ tex_end @ ''y'') = 1
   \<and> occurrences tex_end (''x'' @ tex_start @ ''old'' @ tex_end @ ''y'') = 1
   \<and> \<not> contains tex_start ''A'' \<and> \<not> contains tex_end ''A''
   \<and> \<not> contains tex_start ''B'' \<and> \<not> contains tex_end ''B''
   \<and> replace_between_markers
        (replace_between_markers (''x'' @ tex_start @ ''old'' @ tex_end @ ''y'') tex_start tex_end ''A'')
        tex_start tex_end ''B''
      = ''x'' @ tex_start @ ''\<newline>B\<newline>'' @ tex_end @ ''y''
   \<and> occurrences html_start (html_start @ ''old'' @ html_end) = 1
   \<and> occurrences html_end (html_start @ ''old'' @ html_end) = 1
   \<and> \<not> contains html_start ''<p>A</p>'' \<and> \<not> contains html_end ''<p>A</p>''
   \<and> \<not> contains html_start ''B'' \<and> \<not> contains html_end ''B''
   \<and> replace_between_markers
        (replace_between_markers (html_start @ ''old'' @ html_end) html_start html_end ''<p>A</p>'')
        html_start html_end ''B''
      = html_start @ ''\<newline>B\<newline>'' @ html_end"
proof -
  have os: "occurrences tex_start (''x'' @ tex_start @ ''old'' @ tex_end @ ''y'') = 1"
    by (simp add: tex_start_def tex_end_def)
  have oe: "occurrences tex_end (''x'' @ tex_start @ ''old'' @ tex_end @ ''y'') = 1"
    by (simp add: tex_start_def tex_end_def)
  have na: "\<not> contains tex_start ''A''" "\<not> contains tex_end ''A''"
    by (simp_all add: tex_start_def tex_end_def)
  have nb: "\<not> contains tex_start ''B''" "\<not> contains tex_end ''B''"
    by (simp_all add: tex_start_def tex_end_def)
  have m: "(tex_start = html_start \<and> tex_end = html_end) \<or> (tex_start = tex_start \<and> tex_end = tex_end)"
    by simp
  from splice_twice [OF m refl os oe na nb]
  have 1: "replace_between_markers
        (replace_between_markers (''x'' @ tex_start @ ''old'' @ tex_end @ ''y'') tex_start tex_end ''A'')
        tex_start tex_end ''B''
      = ''x'' @ tex_start @ ''\<newline>B\<newline>'' @ tex_end @ ''y''"
    by simp
  have hos: "occurrences html_start (html_start @ ''old'' @ html_end) = 1"
    by (simp add: html_start_def html_end_def)
  have hoe: "occurrences html_end (html_start @ ''old'' @ html_end) = 1"
    by (simp add: html_start_def html_end_def)
  have hna: "\<not> contains html_start ''<p>A</p>''" "\<not> contains html_end ''<p>A</p>''"
    by (simp_all add: html_start_def html_end_def)
  have hnb: "\<not> contains html_start ''B''" "\<not> contains html_end ''B''"
    by (simp_all add: html_start_def html_end_def)
  have ht: "html_start @ ''old'' @ html_end = [] @ html_start @ ''old'' @ html_end @ []" by simp
  have hm: "(html_start = html_start \<and> html_end = html_end) \<or> (html_start = tex_start \<and> html_end = tex_end)"
    by simp
  from splice_twice [OF hm ht hos hoe hna hnb]
  have 2: "replace_between_markers
        (replace_between_markers (html_start @ ''old'' @ html_end) html_start html_end ''<p>A</p>'')
        html_start html_end ''B''
      = html_start @ ''\<newline>B\<newline>'' @ html_end"
    by simp
  from os oe na nb 1 hos hoe hna hnb 2 show ?thesis by (intro conjI)
qed

end
